theory Spec2Isabelle
  imports Main "HOL-Library.AList" "HOL-Library.Char_ord" "HOL-Library.List_Lexorder"
begin

section \<open>Python values\<close>

text \<open>
  The adapter of \<^verbatim>\<open>tool_adapter.py\<close> receives keyword arguments whose values are
  arbitrary JSON-like Python objects. A string is a list of code points; \<^typ>\<open>char\<close>
  covers the code points 0..255, and strings with code points beyond that range are outside
  the model. A dictionary is an association list in insertion order with distinct keys.

  A floating-point number is its bit pattern and nothing more: the adapter only hands
  floats to built-ins of the interpreter (\<^verbatim>\<open>str\<close>, \<^verbatim>\<open>bool\<close>, \<^verbatim>\<open>int\<close>,
  \<^verbatim>\<open>float\<close>, \<^verbatim>\<open>==\<close>). Those built-ins, and \<^verbatim>\<open>repr\<close> of a string, are fields
  of a record that every function of the model takes as its first argument, so that each
  theorem holds for whatever the interpreter computes there.
\<close>

datatype pyfloat = Float_bits nat

datatype pyval =
    PNone
  | PBool bool
  | PInt int
  | PFloat pyfloat
  | PStr string
  | PList "pyval list"
  | PDict "(string \<times> pyval) list"

datatype pyfault = ValueError | OverflowError | TypeError

type_synonym pydict = "(string \<times> pyval) list"

record py_runtime =
  float_str :: "pyfloat \<Rightarrow> string"
  float_truthy :: "pyfloat \<Rightarrow> bool"
  float_trunc :: "pyfloat \<Rightarrow> pyfault + int"
  float_of_int :: "int \<Rightarrow> pyfault + pyfloat"
  float_parse :: "string \<Rightarrow> pyfloat option"
  float_eq :: "pyfloat \<Rightarrow> pyfloat \<Rightarrow> bool"
  float_eq_int :: "pyfloat \<Rightarrow> int \<Rightarrow> bool"
  str_repr :: "string \<Rightarrow> string"

text \<open>A runtime whose conversions never yield a float; it serves the concrete evaluations
  below, all at inputs without floats and without anything a real interpreter would convert
  to one.\<close>

definition no_float_runtime :: py_runtime where
  "no_float_runtime = \<lparr>
     float_str = (\<lambda>_. ''nan''),
     float_truthy = (\<lambda>_. True),
     float_trunc = (\<lambda>_. Inl ValueError),
     float_of_int = (\<lambda>_. Inl OverflowError),
     float_parse = (\<lambda>_. None),
     float_eq = (\<lambda>_ _. False),
     float_eq_int = (\<lambda>_ _. False),
     str_repr = (\<lambda>s. [CHR 0x27] @ s @ [CHR 0x27]) \<rparr>"

subsection \<open>String built-ins\<close>

text \<open>\<^verbatim>\<open>str.isspace\<close> on the code points below 256.\<close>

definition is_space :: "char \<Rightarrow> bool" where
  "is_space c = (let n = (of_char c :: nat) in
     (9 \<le> n \<and> n \<le> 13) \<or> (28 \<le> n \<and> n \<le> 32) \<or> n = 133 \<or> n = 160)"

text \<open>\<^verbatim>\<open>s.strip(chars)\<close>, with the set of characters as a predicate.\<close>

definition strip_chars :: "(char \<Rightarrow> bool) \<Rightarrow> string \<Rightarrow> string" where
  "strip_chars p s = rev (dropWhile p (rev (dropWhile p s)))"

definition str_strip :: "string \<Rightarrow> string" where
  "str_strip s = strip_chars is_space s"

definition is_quote :: "char \<Rightarrow> bool" where
  "is_quote c = (c = CHR 0x22 \<or> c = CHR 0x27)"

definition strip_quotes :: "string \<Rightarrow> string" where
  "strip_quotes s = strip_chars is_quote s"

text \<open>\<^verbatim>\<open>str.lower\<close> on the code points below 256.\<close>

definition lower_char :: "char \<Rightarrow> char" where
  "lower_char c = (let n = (of_char c :: nat) in
     if (65 \<le> n \<and> n \<le> 90) \<or> (192 \<le> n \<and> n \<le> 222 \<and> n \<noteq> 215)
     then char_of (n + 32) else c)"

definition str_lower :: "string \<Rightarrow> string" where
  "str_lower s = map lower_char s"

text \<open>\<^verbatim>\<open>s.split(sep)\<close> for a one-character separator: always at least one piece.\<close>

fun split_on :: "char \<Rightarrow> string \<Rightarrow> string list" where
  "split_on sep [] = [[]]"
| "split_on sep (c # cs) =
     (if c = sep then [] # split_on sep cs
      else (case split_on sep cs of
              [] \<Rightarrow> [[c]]
            | p # ps \<Rightarrow> (c # p) # ps))"

text \<open>\<^verbatim>\<open>s.split()\<close>: the maximal runs of non-whitespace characters.\<close>

fun split_ws_aux :: "string \<Rightarrow> string \<Rightarrow> string list" where
  "split_ws_aux cur [] = (if cur = [] then [] else [rev cur])"
| "split_ws_aux cur (c # cs) =
     (if is_space c
      then (if cur = [] then split_ws_aux [] cs else rev cur # split_ws_aux [] cs)
      else split_ws_aux (c # cur) cs)"

definition split_ws :: "string \<Rightarrow> string list" where
  "split_ws s = split_ws_aux [] s"

text \<open>\<^verbatim>\<open>sep.join(xs)\<close>.\<close>

fun join :: "string \<Rightarrow> string list \<Rightarrow> string" where
  "join sep [] = []"
| "join sep [x] = x"
| "join sep (x # y # ys) = x @ sep @ join sep (y # ys)"

text \<open>\<^verbatim>\<open>str(n)\<close> for an integer.\<close>

definition digit_char :: "nat \<Rightarrow> char" where
  "digit_char d = ''0123456789'' ! d"

function show_nat :: "nat \<Rightarrow> string" where
  "show_nat n = (if n < 10 then [digit_char n] else show_nat (n div 10) @ [digit_char (n mod 10)])"
  by pat_completeness auto
termination
  by (relation "measure id") auto

declare show_nat.simps [simp del]

definition show_int :: "int \<Rightarrow> string" where
  "show_int i = (if i < 0 then CHR ''-'' # show_nat (nat (- i)) else show_nat (nat i))"

text \<open>\<^verbatim>\<open>int(s)\<close> for a string, base 10: surrounding whitespace, an optional sign, then
  groups of decimal digits separated by single underscores. \<^const>\<open>None\<close> is the
  \<^verbatim>\<open>ValueError\<close>. (The interpreter's cap on the number of digits is not modelled.)\<close>

definition is_digit :: "char \<Rightarrow> bool" where
  "is_digit c = (let n = (of_char c :: nat) in 48 \<le> n \<and> n \<le> 57)"

definition digit_val :: "char \<Rightarrow> nat" where
  "digit_val c = of_char c - 48"

fun parse_digits :: "nat \<Rightarrow> bool \<Rightarrow> string \<Rightarrow> nat option" where
  "parse_digits acc after_digit [] = (if after_digit then Some acc else None)"
| "parse_digits acc after_digit (c # cs) =
     (if is_digit c then parse_digits (acc * 10 + digit_val c) True cs
      else if c = CHR ''_'' \<and> after_digit then parse_digits acc False cs
      else None)"

definition parse_int :: "string \<Rightarrow> int option" where
  "parse_int s =
     (case str_strip s of
        [] \<Rightarrow> None
      | c # cs \<Rightarrow>
          if c = CHR ''-'' then map_option (\<lambda>n. - int n) (parse_digits 0 False cs)
          else if c = CHR ''+'' then map_option int (parse_digits 0 False cs)
          else map_option int (parse_digits 0 False (c # cs)))"

subsection \<open>Built-ins on values\<close>

text \<open>\<^verbatim>\<open>repr(v)\<close> and \<^verbatim>\<open>str(v)\<close>: they differ on strings only, and a container shows
  the \<^verbatim>\<open>repr\<close> of its elements.\<close>

fun py_repr :: "py_runtime \<Rightarrow> pyval \<Rightarrow> string"
  and py_repr_list :: "py_runtime \<Rightarrow> pyval list \<Rightarrow> string list"
  and py_repr_items :: "py_runtime \<Rightarrow> (string \<times> pyval) list \<Rightarrow> string list" where
  "py_repr rt PNone = ''None''"
| "py_repr rt (PBool b) = (if b then ''True'' else ''False'')"
| "py_repr rt (PInt i) = show_int i"
| "py_repr rt (PFloat f) = float_str rt f"
| "py_repr rt (PStr s) = str_repr rt s"
| "py_repr rt (PList xs) = ''['' @ join '', '' (py_repr_list rt xs) @ '']''"
| "py_repr rt (PDict d) = ''{'' @ join '', '' (py_repr_items rt d) @ ''}''"
| "py_repr_list rt [] = []"
| "py_repr_list rt (x # xs) = py_repr rt x # py_repr_list rt xs"
| "py_repr_items rt [] = []"
| "py_repr_items rt ((k, v) # d) = (str_repr rt k @ '': '' @ py_repr rt v) # py_repr_items rt d"

definition py_str :: "py_runtime \<Rightarrow> pyval \<Rightarrow> string" where
  "py_str rt v = (case v of PStr s \<Rightarrow> s | _ \<Rightarrow> py_repr rt v)"

text \<open>\<^verbatim>\<open>bool(v)\<close>.\<close>

definition py_truthy :: "py_runtime \<Rightarrow> pyval \<Rightarrow> bool" where
  "py_truthy rt v =
     (case v of
        PNone \<Rightarrow> False
      | PBool b \<Rightarrow> b
      | PInt i \<Rightarrow> i \<noteq> 0
      | PFloat f \<Rightarrow> float_truthy rt f
      | PStr s \<Rightarrow> s \<noteq> []
      | PList xs \<Rightarrow> xs \<noteq> []
      | PDict d \<Rightarrow> d \<noteq> [])"

text \<open>\<^verbatim>\<open>a == b\<close>: a boolean is the integer 0 or 1, numbers compare by value, lists
  elementwise, dictionaries key by key whatever their order. (The identity shortcut that
  container comparison takes for one and the same object is not modelled.)\<close>

fun py_eq :: "py_runtime \<Rightarrow> pyval \<Rightarrow> pyval \<Rightarrow> bool"
  and py_eq_list :: "py_runtime \<Rightarrow> pyval list \<Rightarrow> pyval list \<Rightarrow> bool"
  and py_eq_items :: "py_runtime \<Rightarrow> (string \<times> pyval) list \<Rightarrow> (string \<times> pyval) list \<Rightarrow> bool" where
  "py_eq rt PNone w = (w = PNone)"
| "py_eq rt (PBool a) w =
     (case w of PBool b \<Rightarrow> a = b
      | PInt j \<Rightarrow> (if a then 1 else 0) = j
      | PFloat g \<Rightarrow> float_eq_int rt g (if a then 1 else 0)
      | _ \<Rightarrow> False)"
| "py_eq rt (PInt i) w =
     (case w of PBool b \<Rightarrow> i = (if b then 1 else 0)
      | PInt j \<Rightarrow> i = j
      | PFloat g \<Rightarrow> float_eq_int rt g i
      | _ \<Rightarrow> False)"
| "py_eq rt (PFloat f) w =
     (case w of PBool b \<Rightarrow> float_eq_int rt f (if b then 1 else 0)
      | PInt j \<Rightarrow> float_eq_int rt f j
      | PFloat g \<Rightarrow> float_eq rt f g
      | _ \<Rightarrow> False)"
| "py_eq rt (PStr s) w = (w = PStr s)"
| "py_eq rt (PList xs) w = (case w of PList ys \<Rightarrow> py_eq_list rt xs ys | _ \<Rightarrow> False)"
| "py_eq rt (PDict d) w =
     (case w of PDict e \<Rightarrow> length d = length e \<and> py_eq_items rt d e | _ \<Rightarrow> False)"
| "py_eq_list rt [] ys = (ys = [])"
| "py_eq_list rt (x # xs) ys =
     (case ys of [] \<Rightarrow> False | y # ys' \<Rightarrow> py_eq rt x y \<and> py_eq_list rt xs ys')"
| "py_eq_items rt [] e = True"
| "py_eq_items rt ((k, v) # d) e =
     ((case map_of e k of None \<Rightarrow> False | Some w \<Rightarrow> py_eq rt v w) \<and> py_eq_items rt d e)"

subsection \<open>Dictionaries\<close>

text \<open>\<^verbatim>\<open>d.get(k)\<close> is \<^term>\<open>map_of d k\<close>, \<^verbatim>\<open>d[k] = v\<close> is \<^term>\<open>AList.update k v d\<close>
  (the key keeps its place, a new key goes last), \<^verbatim>\<open>d.pop(k)\<close> leaves
  \<^term>\<open>AList.delete k d\<close>.\<close>

definition has_key :: "string \<Rightarrow> (string \<times> 'v) list \<Rightarrow> bool" where
  "has_key k d = (map_of d k \<noteq> None)"

text \<open>\<^verbatim>\<open>d.update(e)\<close>.\<close>

definition dict_update :: "(string \<times> 'v) list \<Rightarrow> (string \<times> 'v) list \<Rightarrow> (string \<times> 'v) list" where
  "dict_update d e = fold (\<lambda>(k, v) acc. AList.update k v acc) e d"

text \<open>\<^verbatim>\<open>d.get(k)\<close> as a value: \<^verbatim>\<open>None\<close> when the key is absent.\<close>

definition get_or_none :: "pydict \<Rightarrow> string \<Rightarrow> pyval" where
  "get_or_none d k = (case map_of d k of None \<Rightarrow> PNone | Some v \<Rightarrow> v)"

section \<open>Coercer\<close>

definition to_str :: "py_runtime \<Rightarrow> pyval \<Rightarrow> string" where
  "to_str rt v = (if v = PNone then [] else py_str rt v)"

definition to_bool :: "py_runtime \<Rightarrow> pyval \<Rightarrow> bool" where
  "to_bool rt v =
     (case v of
        PBool b \<Rightarrow> b
      | PInt i \<Rightarrow> i \<noteq> 0
      | PFloat f \<Rightarrow> float_truthy rt f
      | PStr s \<Rightarrow>
          (let w = str_lower (str_strip s) in
           if w \<in> set [''true'', ''yes'', ''y'', ''1''] then True
           else if w \<in> set [''false'', ''no'', ''n'', ''0''] then False
           else py_truthy rt v)
      | _ \<Rightarrow> py_truthy rt v)"

text \<open>\<^verbatim>\<open>_to_int\<close>: a boolean is an instance of \<^verbatim>\<open>int\<close> and is returned as it is.\<close>

definition to_int :: "py_runtime \<Rightarrow> pyval \<Rightarrow> pyfault + pyval" where
  "to_int rt v =
     (case v of
        PBool b \<Rightarrow> Inr (PBool b)
      | PInt i \<Rightarrow> Inr (PInt i)
      | PFloat f \<Rightarrow> (case float_trunc rt f of Inl e \<Rightarrow> Inl e | Inr i \<Rightarrow> Inr (PInt i))
      | _ \<Rightarrow> (case parse_int (str_strip (py_str rt v)) of
                None \<Rightarrow> Inl ValueError
              | Some i \<Rightarrow> Inr (PInt i)))"

definition to_float :: "py_runtime \<Rightarrow> pyval \<Rightarrow> pyfault + pyval" where
  "to_float rt v =
     (case v of
        PBool b \<Rightarrow> (case float_of_int rt (if b then 1 else 0) of
                      Inl e \<Rightarrow> Inl e | Inr f \<Rightarrow> Inr (PFloat f))
      | PInt i \<Rightarrow> (case float_of_int rt i of Inl e \<Rightarrow> Inl e | Inr f \<Rightarrow> Inr (PFloat f))
      | PFloat f \<Rightarrow> Inr (PFloat f)
      | _ \<Rightarrow> (case float_parse rt (str_strip (py_str rt v)) of
                None \<Rightarrow> Inl ValueError
              | Some f \<Rightarrow> Inr (PFloat f)))"

text \<open>\<^verbatim>\<open>raw.startswith("[") and raw.endswith("]")\<close>, then \<^verbatim>\<open>raw[1:-1]\<close>.\<close>

definition unbracket :: "string \<Rightarrow> string" where
  "unbracket raw =
     (if raw \<noteq> [] \<and> hd raw = CHR ''['' \<and> last raw = CHR '']'' then butlast (tl raw) else raw)"

definition to_str_list :: "py_runtime \<Rightarrow> pyval \<Rightarrow> string list" where
  "to_str_list rt v =
     (case v of
        PNone \<Rightarrow> []
      | PList xs \<Rightarrow>
          map (\<lambda>x. strip_quotes (str_strip (py_str rt x)))
            (filter (\<lambda>x. str_strip (py_str rt x) \<noteq> []) xs)
      | _ \<Rightarrow>
          (let raw = unbracket (str_strip (py_str rt v));
               parts = map str_strip (split_on CHR '','' raw)
           in map (\<lambda>p. strip_quotes (str_strip p)) (filter (\<lambda>p. str_strip p \<noteq> []) parts)))"

definition coerce_value :: "py_runtime \<Rightarrow> string \<Rightarrow> pyval \<Rightarrow> pyfault + pyval" where
  "coerce_value rt expected v =
     (if expected = ''str'' then Inr (PStr (to_str rt v))
      else if expected = ''bool'' then Inr (PBool (to_bool rt v))
      else if expected = ''int'' then to_int rt v
      else if expected = ''float'' then to_float rt v
      else if expected = ''list'' \<or> expected = ''list[str]''
        then Inr (PList (map PStr (to_str_list rt v)))
      else Inr v)"

section \<open>Override model and signatures\<close>

text \<open>What \<^verbatim>\<open>_infer_expected_type\<close> distinguishes in the annotation of a parameter.\<close>

datatype annotation =
    Unannotated
  | Ann_str
  | Ann_bool
  | Ann_int
  | Ann_float
  | Ann_list
  | Ann_list_of
  | Ann_other

record parameter =
  pname :: string
  pannotation :: annotation
  has_default :: bool

type_synonym signature = "parameter list"

definition infer_expected_type :: "parameter \<Rightarrow> string" where
  "infer_expected_type p =
     (case pannotation p of
        Unannotated \<Rightarrow> ''str''
      | Ann_str \<Rightarrow> ''str''
      | Ann_bool \<Rightarrow> ''bool''
      | Ann_int \<Rightarrow> ''int''
      | Ann_float \<Rightarrow> ''float''
      | Ann_list \<Rightarrow> ''list[str]''
      | Ann_list_of \<Rightarrow> ''list[str]''
      | Ann_other \<Rightarrow> ''str'')"

text \<open>A rule of \<^verbatim>\<open>required_if\<close>: \<^verbatim>\<open>{"param": p, "when": {...}}\<close>; a rule without
  \<^verbatim>\<open>when\<close> has the empty condition.\<close>

record rule =
  rule_param :: string
  rule_when :: pydict

text \<open>\<^verbatim>\<open>FunctionOverride\<close>. The sets \<^verbatim>\<open>required\<close> and \<^verbatim>\<open>optional\<close> are lists in
  the order in which the interpreter happens to iterate them.\<close>

record function_override =
  expected_types :: "(string \<times> string) list"
  required :: "string list"
  optional :: "string list"
  required_if :: "rule list"
  defaults :: pydict
  aliases :: "(string \<times> string) list"
  max_lengths :: "(string \<times> int) list"

definition empty_override :: function_override where
  "empty_override = \<lparr> expected_types = [], required = [], optional = [], required_if = [],
     defaults = [], aliases = [], max_lengths = [] \<rparr>"

section \<open>Wrapper pipeline\<close>

subsection \<open>Invocation envelope\<close>

definition unwrap_envelope :: "pydict \<Rightarrow> pydict" where
  "unwrap_envelope kwargs =
     (if length kwargs = 1 \<and> has_key ''kwargs'' kwargs
      then (case get_or_none kwargs ''kwargs'' of PDict inner \<Rightarrow> inner | _ \<Rightarrow> kwargs)
      else kwargs)"

subsection \<open>Normalizer\<close>

definition canonical_key :: "string \<Rightarrow> string" where
  "canonical_key key =
     (if key \<in> set [''phoneNumber'', ''phone_number''] then ''phone''
      else if key \<in> set [''groupId'', ''group''] then ''group_id''
      else if key \<in> set [''contactId''] then ''contact_id''
      else if key \<in> set [''templateId''] then ''template_id''
      else if key \<in> set [''campaignId''] then ''campaign_id''
      else key)"

text \<open>The first loop fills \<^verbatim>\<open>normalized\<close> while \<^verbatim>\<open>kwargs\<close> stays as it was; then
  \<^verbatim>\<open>kwargs.update(normalized)\<close>.\<close>

definition collect_rewrites :: "pydict \<Rightarrow> pydict" where
  "collect_rewrites kwargs =
     fold (\<lambda>(key, v) normalized.
             if \<not> has_key (canonical_key key) kwargs
             then AList.update (canonical_key key) v normalized else normalized)
          kwargs []"

definition rewrite_keys :: "pydict \<Rightarrow> pydict" where
  "rewrite_keys kwargs = dict_update kwargs (collect_rewrites kwargs)"

definition name_parts :: "py_runtime \<Rightarrow> pyval \<Rightarrow> string list" where
  "name_parts rt v = filter (\<lambda>p. p \<noteq> []) (split_ws (str_strip (py_str rt v)))"

definition expand_name :: "py_runtime \<Rightarrow> pydict \<Rightarrow> pydict" where
  "expand_name rt kwargs =
     (let full_name_value =
            (if has_key ''full_name'' kwargs then get_or_none kwargs ''full_name''
             else if has_key ''name'' kwargs then get_or_none kwargs ''name''
             else PNone)
      in if py_truthy rt full_name_value
            \<and> \<not> has_key ''first_name'' kwargs \<and> \<not> has_key ''last_name'' kwargs
         then (let parts = name_parts rt full_name_value
               in if length parts = 1
                  then AList.update ''first_name'' (PStr (hd parts)) kwargs
                  else if length parts \<ge> 2
                  then AList.update ''last_name'' (PStr (last parts))
                         (AList.update ''first_name'' (PStr (join '' '' (butlast parts))) kwargs)
                  else kwargs)
         else kwargs)"

fun first_nonblank :: "py_runtime \<Rightarrow> pyval list \<Rightarrow> string option" where
  "first_nonblank rt [] = None"
| "first_nonblank rt (item # items) =
     (let s = str_strip (py_str rt item)
      in if s \<noteq> [] then Some s else first_nonblank rt items)"

definition fold_contacts :: "py_runtime \<Rightarrow> pydict \<Rightarrow> pydict" where
  "fold_contacts rt kwargs =
     (if has_key ''contacts'' kwargs \<and> \<not> has_key ''phone'' kwargs
      then (case get_or_none kwargs ''contacts'' of
              PList items \<Rightarrow>
                (case first_nonblank rt items of
                   None \<Rightarrow> kwargs
                 | Some s \<Rightarrow> AList.update ''phone'' (PStr s) kwargs)
            | _ \<Rightarrow> kwargs)
      else kwargs)"

text \<open>The three steps run inside one \<^verbatim>\<open>try\<close> whose handler ignores every exception; on
  the values of the model none of them raises, so the handler is never entered.\<close>

definition normalize_kwargs :: "py_runtime \<Rightarrow> pydict \<Rightarrow> pydict" where
  "normalize_kwargs rt kwargs = fold_contacts rt (expand_name rt (rewrite_keys kwargs))"

subsection \<open>Alias resolver\<close>

definition apply_alias :: "string \<times> string \<Rightarrow> pydict \<Rightarrow> pydict" where
  "apply_alias ac kwargs =
     (case map_of kwargs (fst ac) of
        None \<Rightarrow> kwargs
      | Some v \<Rightarrow>
          if \<not> has_key (snd ac) kwargs
          then AList.update (snd ac) v (AList.delete (fst ac) kwargs)
          else kwargs)"

definition apply_aliases :: "function_override \<Rightarrow> pydict \<Rightarrow> pydict" where
  "apply_aliases ov kwargs = fold apply_alias (aliases ov) kwargs"

subsection \<open>Defaults and binding\<close>

definition seed_defaults :: "function_override \<Rightarrow> pydict" where
  "seed_defaults ov = dict_update [] (defaults ov)"

definition resolve_kind :: "function_override \<Rightarrow> parameter \<Rightarrow> string" where
  "resolve_kind ov p =
     (case map_of (expected_types ov) (pname p) of
        None \<Rightarrow> infer_expected_type p
      | Some k \<Rightarrow> if k \<noteq> [] then k else infer_expected_type p)"

fun bind_params ::
  "py_runtime \<Rightarrow> function_override \<Rightarrow> pydict \<Rightarrow> signature \<Rightarrow> pydict \<Rightarrow> pyfault + pydict" where
  "bind_params rt ov kwargs [] bound = Inr bound"
| "bind_params rt ov kwargs (p # ps) bound =
     (case map_of kwargs (pname p) of
        None \<Rightarrow> bind_params rt ov kwargs ps bound
      | Some v \<Rightarrow>
          (case coerce_value rt (resolve_kind ov p) v of
             Inl e \<Rightarrow> Inl e
           | Inr c \<Rightarrow> bind_params rt ov kwargs ps (AList.update (pname p) c bound)))"

definition pass_through :: "pydict \<Rightarrow> pydict \<Rightarrow> pydict" where
  "pass_through kwargs bound =
     fold (\<lambda>(k, v) b. if \<not> has_key k b then AList.update k v b else b) kwargs bound"

definition bind_args ::
  "py_runtime \<Rightarrow> signature \<Rightarrow> function_override \<Rightarrow> pydict \<Rightarrow> pyfault + pydict" where
  "bind_args rt sig ov kwargs =
     (case bind_params rt ov kwargs sig (seed_defaults ov) of
        Inl e \<Rightarrow> Inl e
      | Inr bound \<Rightarrow> Inr (pass_through kwargs bound))"

subsection \<open>Validator\<close>

text \<open>\<^verbatim>\<open>v in (None, "", [], {})\<close>.\<close>

definition is_missing :: "py_runtime \<Rightarrow> pyval \<Rightarrow> bool" where
  "is_missing rt v = list_ex (py_eq rt v) [PNone, PStr [], PList [], PDict []]"

definition required_missing :: "py_runtime \<Rightarrow> function_override \<Rightarrow> pydict \<Rightarrow> string list" where
  "required_missing rt ov bound =
     filter (\<lambda>req. is_missing rt (get_or_none bound req)) (required ov)"

text \<open>The inner loop over \<^verbatim>\<open>when.items()\<close>, which leaves at the first mismatch.\<close>

fun meets :: "py_runtime \<Rightarrow> pydict \<Rightarrow> pydict \<Rightarrow> bool" where
  "meets rt bound [] = True"
| "meets rt bound ((wkey, wval) # rest) =
     (if \<not> py_eq rt (get_or_none bound wkey) wval then False else meets rt bound rest)"

definition rule_missing :: "py_runtime \<Rightarrow> pydict \<Rightarrow> rule \<Rightarrow> string list" where
  "rule_missing rt bound r =
     (if meets rt bound (rule_when r) \<and> is_missing rt (get_or_none bound (rule_param r))
      then [rule_param r] else [])"

definition conditional_missing :: "py_runtime \<Rightarrow> function_override \<Rightarrow> pydict \<Rightarrow> string list" where
  "conditional_missing rt ov bound = concat (map (rule_missing rt bound) (required_if ov))"

definition missing_params :: "py_runtime \<Rightarrow> function_override \<Rightarrow> pydict \<Rightarrow> string list" where
  "missing_params rt ov bound = required_missing rt ov bound @ conditional_missing rt ov bound"

definition missing_message :: "string list \<Rightarrow> string" where
  "missing_message missing =
     ''Missing required parameter(s): '' @ join '', '' (sort (remdups missing))"

definition too_long_message :: "string \<Rightarrow> nat \<Rightarrow> int \<Rightarrow> string" where
  "too_long_message field_name n max_len =
     field_name @ '' is too long ('' @ show_int (int n) @ '' characters). ''
       @ ''Maximum allowed is '' @ show_int max_len @ ''. Please shorten it and try again.''"

fun check_lengths :: "(string \<times> int) list \<Rightarrow> pydict \<Rightarrow> string option" where
  "check_lengths [] bound = None"
| "check_lengths ((field_name, max_len) # rest) bound =
     (case get_or_none bound field_name of
        PStr s \<Rightarrow>
          if int (length s) > max_len then Some (too_long_message field_name (length s) max_len)
          else check_lengths rest bound
      | _ \<Rightarrow> check_lengths rest bound)"

text \<open>What the wrapper decides once the Binding is there: a Structured Error, or the call
  \<^verbatim>\<open>func(**bound_args)\<close>.\<close>

datatype decision = Reject string | Invoke pydict

definition validate :: "py_runtime \<Rightarrow> function_override \<Rightarrow> pydict \<Rightarrow> decision" where
  "validate rt ov bound =
     (let missing = missing_params rt ov bound
      in if missing \<noteq> [] then Reject (missing_message missing)
         else (case check_lengths (max_lengths ov) bound of
                 Some msg \<Rightarrow> Reject msg
               | None \<Rightarrow> Invoke bound))"

subsection \<open>The wrapper\<close>

definition resolve_kwargs :: "py_runtime \<Rightarrow> function_override \<Rightarrow> pydict \<Rightarrow> pydict" where
  "resolve_kwargs rt ov kwargs = apply_aliases ov (normalize_kwargs rt kwargs)"

definition pipeline ::
  "py_runtime \<Rightarrow> signature \<Rightarrow> function_override \<Rightarrow> pydict \<Rightarrow> pyfault + decision" where
  "pipeline rt sig ov kwargs =
     (case bind_args rt sig ov (resolve_kwargs rt ov (unwrap_envelope kwargs)) of
        Inl e \<Rightarrow> Inl e
      | Inr bound \<Rightarrow> Inr (validate rt ov bound))"

definition structured_error :: "string \<Rightarrow> pyval" where
  "structured_error msg = PDict [(''error'', PStr msg)]"

text \<open>The domain function is any function from the Binding to a value or a fault of its
  own; it is applied only when the decision is \<^const>\<open>Invoke\<close>.\<close>

definition wrapper ::
  "py_runtime \<Rightarrow> (pydict \<Rightarrow> pyfault + pyval) \<Rightarrow> signature \<Rightarrow> function_override \<Rightarrow> pydict
     \<Rightarrow> pyfault + pyval" where
  "wrapper rt func sig ov kwargs =
     (case pipeline rt sig ov kwargs of
        Inl e \<Rightarrow> Inl e
      | Inr (Reject msg) \<Rightarrow> Inr (structured_error msg)
      | Inr (Invoke bound) \<Rightarrow> func bound)"

section \<open>Static configuration\<close>

text \<open>The overrides that \<^verbatim>\<open>default_overrides\<close> builds, in the order in which it builds
  them, and the alias tables of \<^verbatim>\<open>default_aliases\<close>.\<close>

definition schedule_rule :: rule where
  "schedule_rule = \<lparr> rule_param = ''schedule_time'', rule_when = [(''schedule'', PBool True)] \<rparr>"

definition send_quick_bulk_sms_override :: function_override where
  "send_quick_bulk_sms_override = \<lparr>
     expected_types = [(''recipient'', ''list[str]''), (''sender_id'', ''str''),
       (''message'', ''str''), (''schedule'', ''bool''), (''schedule_time'', ''str'')],
     required = [''recipient'', ''sender_id'', ''message''],
     optional = [''schedule'', ''schedule_time''],
     required_if = [schedule_rule],
     defaults = [(''schedule'', PBool False)],
     aliases = [(''recipients'', ''recipient'')],
     max_lengths = [(''message'', 460)] \<rparr>"

definition send_bulk_group_sms_override :: function_override where
  "send_bulk_group_sms_override = \<lparr>
     expected_types = [(''group_id'', ''list[str]''), (''sender_id'', ''str''),
       (''message'', ''str''), (''schedule'', ''bool''), (''schedule_time'', ''str'')],
     required = [''group_id'', ''sender_id'', ''message''],
     optional = [''schedule'', ''schedule_time''],
     required_if = [schedule_rule],
     defaults = [(''schedule'', PBool False)],
     aliases = [],
     max_lengths = [(''message'', 460)] \<rparr>"

definition update_scheduled_sms_override :: function_override where
  "update_scheduled_sms_override = \<lparr>
     expected_types = [(''_id'', ''str''), (''sender_id'', ''str''),
       (''schedule_time'', ''str''), (''message'', ''str'')],
     required = [''_id'', ''sender_id'', ''schedule_time''],
     optional = [''message''],
     required_if = [],
     defaults = [],
     aliases = [],
     max_lengths = [(''message'', 460)] \<rparr>"

definition add_contact_override :: function_override where
  "add_contact_override = \<lparr>
     expected_types = [(''group_id'', ''str''), (''phone'', ''str''), (''first_name'', ''str''),
       (''last_name'', ''str''), (''dob'', ''str''), (''email'', ''str'')],
     required = [''group_id'', ''phone''],
     optional = [],
     required_if = [],
     defaults = [],
     aliases = [(''group'', ''group_id''), (''phone_number'', ''phone''), (''phoneNumber'', ''phone'')],
     max_lengths = [] \<rparr>"

definition update_contact_override :: function_override where
  "update_contact_override = \<lparr>
     expected_types = [(''contact_id'', ''str''), (''phone'', ''str''), (''first_name'', ''str''),
       (''last_name'', ''str''), (''dob'', ''str''), (''email'', ''str''), (''group_id'', ''str'')],
     required = [''contact_id'', ''phone''],
     optional = [],
     required_if = [],
     defaults = [],
     aliases = [(''group'', ''group_id''), (''phone_number'', ''phone''), (''phoneNumber'', ''phone''),
       (''contactId'', ''contact_id'')],
     max_lengths = [] \<rparr>"

definition common_pattern_names :: "string list" where
  "common_pattern_names =
     [''add_contact'', ''update_contact'', ''delete_contact'', ''get_contact_details'',
      ''add_group'', ''update_group'', ''delete_group'', ''get_group_details'',
      ''get_message_template'', ''update_message_template'', ''delete_message_template'',
      ''sms_delivery_report'', ''specific_sms_delivery_report'', ''update_scheduled_sms'']"

definition default_overrides :: "(string \<times> function_override) list" where
  "default_overrides =
     (let o1 = AList.update ''send_quick_bulk_sms'' send_quick_bulk_sms_override [];
          o2 = AList.update ''send_bulk_group_sms'' send_bulk_group_sms_override o1;
          o3 = AList.update ''update_scheduled_sms'' update_scheduled_sms_override o2;
          o4 = fold (\<lambda>name ovs.
                       AList.update name
                         (case map_of ovs name of Some ov \<Rightarrow> ov | None \<Rightarrow> empty_override) ovs)
                    common_pattern_names o3;
          o5 = AList.update ''add_contact'' add_contact_override o4
      in AList.update ''update_contact'' update_contact_override o5)"

definition default_aliases :: "(string \<times> (string \<times> string) list) list" where
  "default_aliases =
     [(''send_quick_bulk_sms'', [(''recipients'', ''recipient'')]),
      (''send_bulk_group_sms'', [(''groups'', ''group_id''), (''group_ids'', ''group_id'')])]"

text \<open>The override that \<^verbatim>\<open>register_flex_functions\<close> hands to \<^verbatim>\<open>make_flex_wrapper\<close> for
  the function of a given name: the table's entry, or an empty override, with
  \<^verbatim>\<open>{**aliases.get(name, {}), **ov.aliases}\<close> as its alias table.\<close>

definition registered_override :: "string \<Rightarrow> function_override" where
  "registered_override name =
     (let ov = (case map_of default_overrides name of Some ov \<Rightarrow> ov | None \<Rightarrow> empty_override);
          global = (case map_of default_aliases name of Some al \<Rightarrow> al | None \<Rightarrow> [])
      in ov \<lparr> aliases := dict_update global (aliases ov) \<rparr>)"

text \<open>Modelled from the spec: the signature of the domain function \<^verbatim>\<open>send_quick_bulk_sms\<close>,
  whose module is not part of the sources at hand; the parameter names are those of the
  spec's end-to-end scenario and of the override above. It is used for concrete calls only.\<close>

definition send_quick_bulk_sms_signature :: signature where
  "send_quick_bulk_sms_signature =
     [\<lparr> pname = ''recipient'', pannotation = Unannotated, has_default = False \<rparr>,
      \<lparr> pname = ''sender_id'', pannotation = Unannotated, has_default = False \<rparr>,
      \<lparr> pname = ''message'', pannotation = Unannotated, has_default = False \<rparr>,
      \<lparr> pname = ''schedule'', pannotation = Unannotated, has_default = True \<rparr>,
      \<lparr> pname = ''schedule_time'', pannotation = Unannotated, has_default = True \<rparr>]"

text \<open>A domain function for concrete calls: it returns the Binding it was called with.\<close>

definition echo_function :: "pydict \<Rightarrow> pyfault + pyval" where
  "echo_function bound = Inr (PDict bound)"

section \<open>Auxiliary notions for the statements\<close>

text \<open>The writes of the Normalizer's first loop, in the order in which it makes them: one
  pair (canonical key, value) for every key of the arguments whose canonical key is not
  among the arguments.\<close>

definition key_rewrites :: "pydict \<Rightarrow> pydict" where
  "key_rewrites kwargs = map (\<lambda>(k, v). (canonical_key k, v))
     (filter (\<lambda>(k, v). \<not> has_key (canonical_key k) kwargs) kwargs)"

text \<open>String-list coercion as claim C7 words it, for comparison with \<^const>\<open>to_str_list\<close>: a
  native list has its elements stringified, trimmed and quote-stripped, and the empty results
  are dropped; any other value is a scalar, whose string form loses one enclosing bracket
  layer, is split on commas, each piece trimmed and quote-stripped, the empty results
  dropped.\<close>

definition claimed_str_list :: "py_runtime \<Rightarrow> pyval \<Rightarrow> string list" where
  "claimed_str_list rt v =
     (case v of
        PList xs \<Rightarrow>
          filter (\<lambda>s. s \<noteq> []) (map (\<lambda>x. strip_quotes (str_strip (py_str rt x))) xs)
      | _ \<Rightarrow>
          filter (\<lambda>s. s \<noteq> [])
            (map (\<lambda>p. strip_quotes (str_strip p)) (split_on CHR '','' (unbracket (py_str rt v)))))"

text \<open>The value the name-splitting step reads, and whether that step and the
  contacts-folding step change the arguments.\<close>

definition name_value :: "pydict \<Rightarrow> pyval" where
  "name_value kwargs =
     (if has_key ''full_name'' kwargs then get_or_none kwargs ''full_name''
      else if has_key ''name'' kwargs then get_or_none kwargs ''name''
      else PNone)"

definition name_fires :: "py_runtime \<Rightarrow> pydict \<Rightarrow> bool" where
  "name_fires rt kwargs =
     (py_truthy rt (name_value kwargs)
      \<and> \<not> has_key ''first_name'' kwargs \<and> \<not> has_key ''last_name'' kwargs
      \<and> name_parts rt (name_value kwargs) \<noteq> [])"

definition contacts_fires :: "py_runtime \<Rightarrow> pydict \<Rightarrow> bool" where
  "contacts_fires rt kwargs =
     (has_key ''contacts'' kwargs \<and> \<not> has_key ''phone'' kwargs
      \<and> (case get_or_none kwargs ''contacts'' of
            PList items \<Rightarrow> first_nonblank rt items \<noteq> None
          | _ \<Rightarrow> False))"

text \<open>Arguments on which the Normalizer has nothing left to do: every key has its canonical
  key beside it, and neither of the two other steps fires.\<close>

definition normalized :: "py_runtime \<Rightarrow> pydict \<Rightarrow> bool" where
  "normalized rt kwargs =
     (list_all (\<lambda>(k, v). has_key (canonical_key k) kwargs) kwargs
      \<and> \<not> name_fires rt kwargs \<and> \<not> contacts_fires rt kwargs)"

text \<open>Arguments on which an alias pair has nothing left to do.\<close>

definition alias_settled :: "pydict \<Rightarrow> string \<times> string \<Rightarrow> bool" where
  "alias_settled kwargs ac = (\<not> has_key (fst ac) kwargs \<or> has_key (snd ac) kwargs)"

text \<open>The keys the Normalizer reads, and the keys whose absence lets one of its steps run.\<close>

definition normalizer_reads :: "string list" where
  "normalizer_reads =
     [''phoneNumber'', ''phone_number'', ''groupId'', ''group'', ''contactId'', ''templateId'',
      ''campaignId'', ''full_name'', ''name'', ''contacts'']"

definition normalizer_guards :: "string list" where
  "normalizer_guards =
     [''phone'', ''group_id'', ''contact_id'', ''template_id'', ''campaign_id'',
      ''first_name'', ''last_name'', ''full_name'']"

text \<open>An alias table that works with the Normalizer: no canonical key of the table is an
  alias of the table, no alias is a key whose absence lets the Normalizer write, and no
  canonical key of the table is a key the Normalizer reads.\<close>

definition alias_table_separate :: "(string \<times> string) list \<Rightarrow> bool" where
  "alias_table_separate al =
     list_all (\<lambda>(a, c). a \<notin> set (map snd al) \<and> a \<notin> set normalizer_guards
                 \<and> c \<notin> set normalizer_reads) al"

section \<open>Basic facts\<close>

lemma py_eq_list_Nil: "py_eq_list rt xs [] = (xs = [])"
  by (cases xs) simp_all

lemma is_missing_iff:
  "is_missing rt v = (v = PNone \<or> v = PStr [] \<or> v = PList [] \<or> v = PDict [])"
proof (cases v)
  case (PList xs) then show ?thesis by (simp add: is_missing_def py_eq_list_Nil)
next
  case (PDict d) then show ?thesis by (cases d) (simp_all add: is_missing_def)
qed (auto simp: is_missing_def)


lemma set_required_missing:
  "set (required_missing rt ov bound) =
     {q \<in> set (required ov). is_missing rt (get_or_none bound q)}"
  by (simp add: required_missing_def)


lemma validate_missing:
  "missing_params rt ov bound \<noteq> [] \<Longrightarrow>
     validate rt ov bound = Reject (missing_message (missing_params rt ov bound))"
  by (simp add: validate_def Let_def)

lemma validate_no_missing:
  "missing_params rt ov bound = [] \<Longrightarrow>
     validate rt ov bound =
       (case check_lengths (max_lengths ov) bound of Some msg \<Rightarrow> Reject msg | None \<Rightarrow> Invoke bound)"
  by (simp add: validate_def Let_def)

lemma pipeline_bound:
  "bind_args rt sig ov (resolve_kwargs rt ov (unwrap_envelope kwargs)) = Inr bound \<Longrightarrow>
     pipeline rt sig ov kwargs = Inr (validate rt ov bound)"
  by (simp add: pipeline_def)

lemma wrapper_reject:
  "pipeline rt sig ov kwargs = Inr (Reject msg) \<Longrightarrow>
     wrapper rt func sig ov kwargs = Inr (structured_error msg)"
  by (simp add: wrapper_def)

lemma check_lengths_Some:
  "check_lengths ml bound = Some msg \<Longrightarrow>
     \<exists>f lim s. (f, lim) \<in> set ml \<and> map_of bound f = Some (PStr s) \<and> lim < int (length s)
        \<and> msg = too_long_message f (length s) lim"
  by (induction ml bound rule: check_lengths.induct)
     (auto simp: get_or_none_def split: pyval.splits if_splits option.splits)

lemma check_lengths_None:
  "check_lengths ml bound = None \<longleftrightarrow>
     (\<forall>(f, lim) \<in> set ml. \<forall>s. map_of bound f = Some (PStr s) \<longrightarrow> int (length s) \<le> lim)"
  by (induction ml bound rule: check_lengths.induct)
     (auto simp: get_or_none_def split: pyval.splits if_splits option.splits)

section \<open>Evaluation at concrete calls\<close>

lemmas str_defs = py_str_def str_strip_def strip_chars_def is_space_def unbracket_def
  strip_quotes_def is_quote_def split_ws_def str_lower_def lower_char_def

lemmas norm_defs = normalize_kwargs_def fold_contacts_def expand_name_def rewrite_keys_def
  collect_rewrites_def dict_update_def has_key_def get_or_none_def canonical_key_def
  name_parts_def py_truthy_def

lemmas wrap_defs = pipeline_def resolve_kwargs_def unwrap_envelope_def apply_aliases_def
  apply_alias_def bind_args_def seed_defaults_def resolve_kind_def infer_expected_type_def
  pass_through_def coerce_value_def to_str_def to_bool_def to_int_def to_float_def
  to_str_list_def validate_def missing_params_def required_missing_def
  conditional_missing_def rule_missing_def is_missing_def missing_message_def
  too_long_message_def wrapper_def structured_error_def

lemma quick_sender_only_bound:
  "bind_args rt send_quick_bulk_sms_signature send_quick_bulk_sms_override
     (resolve_kwargs rt send_quick_bulk_sms_override
        (unwrap_envelope [(''sender_id'', PStr ''ACME'')]))
   = Inr [(''schedule'', PBool False), (''sender_id'', PStr ''ACME'')]"
  by (simp add: wrap_defs norm_defs str_defs send_quick_bulk_sms_signature_def
        send_quick_bulk_sms_override_def)

section \<open>Required parameters\<close>

text \<open>
  Claim C1. Whenever the Binding of a call is fully populated (no coercion raised) and some
  name of the override's \<^verbatim>\<open>required\<close> set is absent from it or bound to an empty string,
  an empty list or an empty mapping, the wrapper returns the Structured Error
  \<^verbatim>\<open>{"error": "Missing required parameter(s): " + ", ".join(names)}\<close>, whatever the domain
  function is: the decision is \<^const>\<open>Reject\<close>, so the domain function is not invoked. The
  list \<^verbatim>\<open>names\<close> is sorted in the lexicographic order of strings, has no duplicates, and
  holds every required name that is absent or empty in the Binding.
\<close>

theorem required_missing_rejected:
  assumes bound: "bind_args rt sig ov (resolve_kwargs rt ov (unwrap_envelope kwargs)) = Inr bound"
    and req: "r \<in> set (required ov)"
    and empty: "map_of bound r = None \<or> map_of bound r = Some (PStr [])
        \<or> map_of bound r = Some (PList []) \<or> map_of bound r = Some (PDict [])"
  shows "\<exists>names.
           pipeline rt sig ov kwargs =
             Inr (Reject (''Missing required parameter(s): '' @ join '', '' names))
         \<and> (\<forall>func. wrapper rt func sig ov kwargs =
               Inr (PDict [(''error'',
                      PStr (''Missing required parameter(s): '' @ join '', '' names))]))
         \<and> sorted names \<and> distinct names
         \<and> (\<forall>q \<in> set (required ov).
               map_of bound q = None \<or> map_of bound q = Some (PStr [])
                 \<or> map_of bound q = Some (PList []) \<or> map_of bound q = Some (PDict [])
               \<longrightarrow> q \<in> set names)"
proof -
  let ?missing = "missing_params rt ov bound"
  let ?names = "sort (remdups ?missing)"
  have in_missing: "q \<in> set ?missing"
    if "q \<in> set (required ov)"
      and "map_of bound q = None \<or> map_of bound q = Some (PStr [])
        \<or> map_of bound q = Some (PList []) \<or> map_of bound q = Some (PDict [])" for q
    using that
    by (auto simp: missing_params_def set_required_missing is_missing_iff get_or_none_def)
  from in_missing [OF req empty] have ne: "?missing \<noteq> []" by auto
  have p: "pipeline rt sig ov kwargs = Inr (Reject (missing_message ?missing))"
    using pipeline_bound [OF bound] validate_missing [OF ne] by simp
  have "pipeline rt sig ov kwargs =
      Inr (Reject (''Missing required parameter(s): '' @ join '', '' ?names))"
    using p by (simp add: missing_message_def)
  moreover have "\<forall>func. wrapper rt func sig ov kwargs =
      Inr (PDict [(''error'', PStr (''Missing required parameter(s): '' @ join '', '' ?names))])"
    using wrapper_reject [OF p] by (simp add: missing_message_def structured_error_def)
  moreover have "sorted ?names" "distinct ?names" by simp_all
  moreover have "\<forall>q \<in> set (required ov).
               map_of bound q = None \<or> map_of bound q = Some (PStr [])
                 \<or> map_of bound q = Some (PList []) \<or> map_of bound q = Some (PDict [])
               \<longrightarrow> q \<in> set ?names"
    using in_missing by simp
  ultimately show ?thesis by blast
qed

text \<open>The call \<^verbatim>\<open>send_quick_bulk_sms(sender_id="ACME")\<close>: the recipient and the message
  are missing, and both are named.\<close>

theorem required_missing_rejected_witness:
  "\<exists>names.
     wrapper no_float_runtime echo_function send_quick_bulk_sms_signature
       send_quick_bulk_sms_override [(''sender_id'', PStr ''ACME'')]
       = Inr (PDict [(''error'',
                PStr (''Missing required parameter(s): '' @ join '', '' names))])
     \<and> sorted names \<and> distinct names
     \<and> ''recipient'' \<in> set names \<and> ''message'' \<in> set names"
proof -
  let ?bound = "[(''schedule'', PBool False), (''sender_id'', PStr ''ACME'')]"
  have r: "''recipient'' \<in> set (required send_quick_bulk_sms_override)"
    and m: "''message'' \<in> set (required send_quick_bulk_sms_override)"
    by (simp_all add: send_quick_bulk_sms_override_def)
  have e: "map_of ?bound ''recipient'' = None \<or> map_of ?bound ''recipient'' = Some (PStr [])
      \<or> map_of ?bound ''recipient'' = Some (PList [])
      \<or> map_of ?bound ''recipient'' = Some (PDict [])"
    by simp
  have e': "map_of ?bound ''message'' = None" by simp
  from required_missing_rejected [OF quick_sender_only_bound r e, where rt = no_float_runtime]
  obtain names where
    "\<forall>func. wrapper no_float_runtime func send_quick_bulk_sms_signature
       send_quick_bulk_sms_override [(''sender_id'', PStr ''ACME'')]
       = Inr (PDict [(''error'',
                PStr (''Missing required parameter(s): '' @ join '', '' names))])"
    "sorted names" "distinct names"
    "\<forall>q \<in> set (required send_quick_bulk_sms_override).
               map_of ?bound q = None \<or> map_of ?bound q = Some (PStr [])
                 \<or> map_of ?bound q = Some (PList []) \<or> map_of ?bound q = Some (PDict [])
               \<longrightarrow> q \<in> set names"
    by blast
  then show ?thesis using r m e e' by blast
qed

section \<open>Maximum lengths\<close>

lemma validate_Reject_no_missing:
  "validate rt ov bound = Reject msg \<Longrightarrow> missing_params rt ov bound = [] \<Longrightarrow>
     check_lengths (max_lengths ov) bound = Some msg"
  by (simp add: validate_def Let_def split: option.splits)

lemma check_lengths_violation_iff:
  "check_lengths ml bound \<noteq> None \<longleftrightarrow>
     (\<exists>(f, lim) \<in> set ml. \<exists>s. map_of bound f = Some (PStr s) \<and> lim < int (length s))"
  using check_lengths_None [of ml bound] by (fastforce simp: not_le)

lemma reject_iff_length_violation:
  assumes p: "pipeline rt sig ov kwargs = Inr (validate rt ov bound)"
    and m: "missing_params rt ov bound = []"
  shows "(\<exists>msg. pipeline rt sig ov kwargs = Inr (Reject msg)) \<longleftrightarrow>
           (\<exists>(f, lim) \<in> set (max_lengths ov). \<exists>s.
               map_of bound f = Some (PStr s) \<and> lim < int (length s))"
proof -
  have "(\<exists>msg. pipeline rt sig ov kwargs = Inr (Reject msg))
      \<longleftrightarrow> check_lengths (max_lengths ov) bound \<noteq> None"
    using p validate_no_missing [OF m] by (auto split: option.splits)
  then show ?thesis by (simp only: check_lengths_violation_iff)
qed

lemma quick_full_bound:
  "bind_args rt send_quick_bulk_sms_signature send_quick_bulk_sms_override
     (resolve_kwargs rt send_quick_bulk_sms_override
        (unwrap_envelope [(''recipients'', PList [PStr ''+233200000000'']),
           (''sender_id'', PStr ''ACME''), (''message'', PStr m)]))
   = Inr [(''schedule'', PBool False), (''recipient'', PList [PStr ''+233200000000'']),
          (''sender_id'', PStr ''ACME''), (''message'', PStr m)]"
  by (simp add: wrap_defs norm_defs str_defs send_quick_bulk_sms_signature_def
        send_quick_bulk_sms_override_def)

lemma quick_full_missing:
  "missing_params rt send_quick_bulk_sms_override
     [(''schedule'', PBool False), (''recipient'', PList [PStr ''+233200000000'']),
      (''sender_id'', PStr ''ACME''), (''message'', PStr (c # m))] = []"
  by (simp add: wrap_defs get_or_none_def send_quick_bulk_sms_override_def schedule_rule_def)

text \<open>
  Claim C3. For a call whose Binding is populated and passes the required checks
  (\<^term>\<open>missing_params rt ov bound = []\<close>), the wrapper returns a Structured Error exactly when
  some field of \<^verbatim>\<open>max_lengths\<close> is bound to a string strictly longer than its limit; the
  message then names such a field, its actual length and its limit, and the domain function
  is not invoked; without a violation the domain function is invoked with the Binding.
  When the required checks fail, the reported error is the one of the missing parameters.
  Under the limit 460 for \<^verbatim>\<open>message\<close>, a message of 460 characters passes and one of 461
  characters is rejected with a text that holds both 461 and 460.
\<close>

theorem max_length_check:
  assumes bound: "bind_args rt sig ov (resolve_kwargs rt ov (unwrap_envelope kwargs)) = Inr bound"
  shows "(missing_params rt ov bound = [] \<longrightarrow>
            ((\<exists>msg. pipeline rt sig ov kwargs = Inr (Reject msg)) \<longleftrightarrow>
               (\<exists>(f, lim) \<in> set (max_lengths ov). \<exists>s.
                   map_of bound f = Some (PStr s) \<and> lim < int (length s))))
       \<and> (\<forall>msg. missing_params rt ov bound = []
              \<and> pipeline rt sig ov kwargs = Inr (Reject msg) \<longrightarrow>
              (\<exists>f lim s. (f, lim) \<in> set (max_lengths ov) \<and> map_of bound f = Some (PStr s)
                  \<and> lim < int (length s)
                  \<and> msg = f @ '' is too long ('' @ show_int (int (length s))
                      @ '' characters). Maximum allowed is '' @ show_int lim
                      @ ''. Please shorten it and try again.'')
              \<and> (\<forall>func. wrapper rt func sig ov kwargs = Inr (PDict [(''error'', PStr msg)])))
       \<and> (missing_params rt ov bound = []
              \<and> (\<forall>msg. pipeline rt sig ov kwargs \<noteq> Inr (Reject msg)) \<longrightarrow>
            pipeline rt sig ov kwargs = Inr (Invoke bound))
       \<and> (missing_params rt ov bound \<noteq> [] \<longrightarrow>
            pipeline rt sig ov kwargs =
              Inr (Reject (''Missing required parameter(s): ''
                     @ join '', '' (sort (remdups (missing_params rt ov bound))))))
       \<and> (\<forall>s. missing_params rt ov bound = [] \<and> max_lengths ov = [(''message'', 460)]
              \<and> map_of bound ''message'' = Some (PStr s) \<and> length s = 460 \<longrightarrow>
              pipeline rt sig ov kwargs = Inr (Invoke bound))
       \<and> (\<forall>s. missing_params rt ov bound = [] \<and> max_lengths ov = [(''message'', 460)]
              \<and> map_of bound ''message'' = Some (PStr s) \<and> length s = 461 \<longrightarrow>
              pipeline rt sig ov kwargs =
                Inr (Reject ''message is too long (461 characters). Maximum allowed is 460. Please shorten it and try again.''))"
proof (intro conjI impI allI)
  note p = pipeline_bound [OF bound]
  {
    assume m: "missing_params rt ov bound = []"
    show "(\<exists>msg. pipeline rt sig ov kwargs = Inr (Reject msg)) \<longleftrightarrow>
               (\<exists>(f, lim) \<in> set (max_lengths ov). \<exists>s.
                   map_of bound f = Some (PStr s) \<and> lim < int (length s))"
      by (rule reject_iff_length_violation [OF p m])
  next
    fix msg
    assume a: "missing_params rt ov bound = [] \<and> pipeline rt sig ov kwargs = Inr (Reject msg)"
    then have "validate rt ov bound = Reject msg" using p by simp
    with a have "check_lengths (max_lengths ov) bound = Some msg"
      by (simp add: validate_Reject_no_missing)
    from check_lengths_Some [OF this]
    show "\<exists>f lim s. (f, lim) \<in> set (max_lengths ov) \<and> map_of bound f = Some (PStr s)
                  \<and> lim < int (length s)
                  \<and> msg = f @ '' is too long ('' @ show_int (int (length s))
                      @ '' characters). Maximum allowed is '' @ show_int lim
                      @ ''. Please shorten it and try again.''"
      by (simp add: too_long_message_def)
    fix func
    from a show "wrapper rt func sig ov kwargs = Inr (PDict [(''error'', PStr msg)])"
      by (simp add: wrapper_reject structured_error_def)
  next
    assume "missing_params rt ov bound = []
              \<and> (\<forall>msg. pipeline rt sig ov kwargs \<noteq> Inr (Reject msg))"
    then show "pipeline rt sig ov kwargs = Inr (Invoke bound)"
      using p validate_no_missing [of rt ov bound] by (auto split: option.splits)
  next
    assume m: "missing_params rt ov bound \<noteq> []"
    show "pipeline rt sig ov kwargs =
              Inr (Reject (''Missing required parameter(s): ''
                     @ join '', '' (sort (remdups (missing_params rt ov bound)))))"
      using p validate_missing [OF m] by (simp add: missing_message_def)
  next
    fix s
    assume "missing_params rt ov bound = [] \<and> max_lengths ov = [(''message'', 460)]
              \<and> map_of bound ''message'' = Some (PStr s) \<and> length s = 460"
    then show "pipeline rt sig ov kwargs = Inr (Invoke bound)"
      using p validate_no_missing [of rt ov bound] by (simp add: get_or_none_def)
  next
    fix s
    assume "missing_params rt ov bound = [] \<and> max_lengths ov = [(''message'', 460)]
              \<and> map_of bound ''message'' = Some (PStr s) \<and> length s = 461"
    then show "pipeline rt sig ov kwargs =
                Inr (Reject ''message is too long (461 characters). Maximum allowed is 460. Please shorten it and try again.'')"
      using p validate_no_missing [of rt ov bound]
      by (simp add: get_or_none_def too_long_message_def show_int_def show_nat.simps
            digit_char_def)
  }
qed

text \<open>The call of the spec's end-to-end scenario, with a message of 461 and of 460 characters.\<close>

theorem max_length_check_witness:
  "pipeline no_float_runtime send_quick_bulk_sms_signature send_quick_bulk_sms_override
     [(''recipients'', PList [PStr ''+233200000000'']), (''sender_id'', PStr ''ACME''),
      (''message'', PStr (CHR ''a'' # replicate 460 CHR ''a''))]
   = Inr (Reject ''message is too long (461 characters). Maximum allowed is 460. Please shorten it and try again.'')
   \<and> pipeline no_float_runtime send_quick_bulk_sms_signature send_quick_bulk_sms_override
     [(''recipients'', PList [PStr ''+233200000000'']), (''sender_id'', PStr ''ACME''),
      (''message'', PStr (CHR ''a'' # replicate 459 CHR ''a''))]
   = Inr (Invoke [(''schedule'', PBool False), (''recipient'', PList [PStr ''+233200000000'']),
          (''sender_id'', PStr ''ACME''),
          (''message'', PStr (CHR ''a'' # replicate 459 CHR ''a''))])"
proof -
  let ?ov = send_quick_bulk_sms_override
  have ml: "max_lengths ?ov = [(''message'', 460)]"
    by (simp add: send_quick_bulk_sms_override_def)
  let ?long = "CHR ''a'' # replicate 460 CHR ''a''"
  let ?ok = "CHR ''a'' # replicate 459 CHR ''a''"
  let ?b = "\<lambda>m. [(''schedule'', PBool False), (''recipient'', PList [PStr ''+233200000000'']),
          (''sender_id'', PStr ''ACME''), (''message'', PStr m)]"
  have l1: "length ?long = 461" and l2: "length ?ok = 460" by simp_all
  have m1: "map_of (?b ?long) ''message'' = Some (PStr ?long)"
    and m2: "map_of (?b ?ok) ''message'' = Some (PStr ?ok)" by simp_all
  from max_length_check [OF quick_full_bound, of no_float_runtime ?long]
    quick_full_missing [of no_float_runtime] ml l1 m1
  have A: "pipeline no_float_runtime send_quick_bulk_sms_signature ?ov
     [(''recipients'', PList [PStr ''+233200000000'']), (''sender_id'', PStr ''ACME''),
      (''message'', PStr ?long)]
    = Inr (Reject ''message is too long (461 characters). Maximum allowed is 460. Please shorten it and try again.'')"
    by blast
  from max_length_check [OF quick_full_bound, of no_float_runtime ?ok]
    quick_full_missing [of no_float_runtime] ml l2 m2
  have B: "pipeline no_float_runtime send_quick_bulk_sms_signature ?ov
     [(''recipients'', PList [PStr ''+233200000000'']), (''sender_id'', PStr ''ACME''),
      (''message'', PStr ?ok)] = Inr (Invoke (?b ?ok))"
    by blast
  from A B show ?thesis by simp
qed

section \<open>Conditional requirements\<close>







section \<open>Facts about stripping and integer literals\<close>

lemma rev_dropWhile_rev_hd:
  assumes "xs \<noteq> []" "\<not> P (hd xs)"
  shows "\<exists>zs. rev (dropWhile P (rev xs)) = hd xs # zs"
proof -
  from assms obtain x ys where xs: "xs = x # ys" and nx: "\<not> P x" by (cases xs) auto
  show ?thesis
  proof (cases "\<forall>y \<in> set ys. P y")
    case True then show ?thesis by (simp add: xs nx dropWhile_append)
  next
    case False
    then have "rev (dropWhile P (rev xs)) = x # rev (dropWhile P (rev ys))"
      by (simp add: xs dropWhile_append)
    then show ?thesis by (simp add: xs)
  qed
qed

lemma strip_chars_lead: "strip_chars P s = [] \<or> \<not> P (hd (strip_chars P s))"
proof (cases "dropWhile P s = []")
  case True
  then show ?thesis by (simp only: strip_chars_def rev.simps dropWhile.simps) simp
next
  case False
  then have n: "\<not> P (hd (dropWhile P s))" by (simp add: hd_dropWhile)
  from rev_dropWhile_rev_hd [of "dropWhile P s" P, OF False n] obtain zs
    where "strip_chars P s = hd (dropWhile P s) # zs" unfolding strip_chars_def by blast
  with n show ?thesis by simp
qed

lemma strip_chars_trail: "strip_chars P s = [] \<or> \<not> P (last (strip_chars P s))"
proof -
  let ?w = "dropWhile P (rev (dropWhile P s))"
  have "?w = [] \<or> \<not> P (hd ?w)" using hd_dropWhile [of P "rev (dropWhile P s)"] by blast
  moreover have "strip_chars P s = rev ?w" by (simp add: strip_chars_def)
  ultimately show ?thesis by (auto simp: last_rev)
qed

lemma strip_chars_fixed:
  "strip_chars P (strip_chars P s) = strip_chars P s"
proof -
  let ?u = "strip_chars P s"
  have 1: "dropWhile P ?u = ?u"
    using strip_chars_lead [of P s] by (auto simp: dropWhile_eq_self_iff)
  have 2: "dropWhile P (rev ?u) = rev ?u"
    using strip_chars_trail [of P s] by (auto simp: dropWhile_eq_self_iff hd_rev)
  have "strip_chars P ?u = rev (dropWhile P (rev (dropWhile P ?u)))"
    by (simp only: strip_chars_def)
  then show ?thesis by (simp only: 1 2 rev_rev_ident)
qed



lemma str_strip_fixed: "str_strip (str_strip s) = str_strip s"
  by (simp add: str_strip_def strip_chars_fixed)


section \<open>Validation failures and coercion faults\<close>









section \<open>Invocation envelope\<close>

lemma unwrap_envelope_single: "unwrap_envelope [(''kwargs'', PDict m)] = m"
  by (simp add: unwrap_envelope_def has_key_def get_or_none_def)

lemma unwrap_envelope_other:
  assumes "\<forall>inner. kwargs \<noteq> [(''kwargs'', PDict inner)]"
  shows "unwrap_envelope kwargs = kwargs"
proof (cases "length kwargs = 1 \<and> has_key ''kwargs'' kwargs")
  case False
  then show ?thesis by (auto simp: unwrap_envelope_def)
next
  case True
  then obtain k v where kv: "kwargs = [(k, v)]"
    by (cases kwargs) (auto simp: length_Suc_conv)
  with True have k: "k = ''kwargs''" by (auto simp: has_key_def split: if_splits)
  with kv assms have "\<forall>inner. v \<noteq> PDict inner" by auto
  then show ?thesis using kv k
    by (cases v) (auto simp: unwrap_envelope_def has_key_def get_or_none_def)
qed

lemma wrapper_unwrap_cong:
  "unwrap_envelope a = unwrap_envelope b \<Longrightarrow>
     wrapper rt func sig ov a = wrapper rt func sig ov b"
  by (simp add: wrapper_def pipeline_def)

text \<open>
  Claim C5, as stated, fails: the envelope is unwrapped once and only once. For
  \<^verbatim>\<open>m = {"kwargs": {"a": 1}}\<close> the call with \<^verbatim>\<open>{"kwargs": m}\<close> hands the domain function
  the Binding \<^verbatim>\<open>{"kwargs": {"a": 1}}\<close>, while the call with \<^verbatim>\<open>m\<close> itself is unwrapped and
  hands it \<^verbatim>\<open>{"a": 1}\<close>.
\<close>

theorem envelope_unwrap_counterexample:
  "wrapper no_float_runtime echo_function [] empty_override
     [(''kwargs'', PDict [(''kwargs'', PDict [(''a'', PInt 1)])])]
   \<noteq> wrapper no_float_runtime echo_function [] empty_override
     [(''kwargs'', PDict [(''a'', PInt 1)])]"
  by (simp add: wrap_defs norm_defs empty_override_def echo_function_def)

text \<open>
  Claim C5, amended. A call with the one-key mapping \<^verbatim>\<open>{"kwargs": m}\<close>, \<^verbatim>\<open>m\<close> a mapping,
  runs the pipeline on \<^verbatim>\<open>m\<close> without unwrapping again; it gives the same result as the call
  with \<^verbatim>\<open>m\<close> whenever \<^verbatim>\<open>m\<close> is not itself a one-key mapping \<^verbatim>\<open>{"kwargs": mapping}\<close>.
  A mapping that is not of that shape (more than one key, another key, or a \<^verbatim>\<open>kwargs\<close>
  value that is no mapping) is not unwrapped.
\<close>

theorem envelope_unwrap:
  "unwrap_envelope [(''kwargs'', PDict m)] = m
   \<and> ((\<forall>inner. m \<noteq> [(''kwargs'', PDict inner)]) \<longrightarrow>
        wrapper rt func sig ov [(''kwargs'', PDict m)] = wrapper rt func sig ov m)
   \<and> ((\<forall>inner. kwargs \<noteq> [(''kwargs'', PDict inner)]) \<longrightarrow> unwrap_envelope kwargs = kwargs)
   \<and> (length kwargs \<noteq> 1 \<longrightarrow> unwrap_envelope kwargs = kwargs)
   \<and> ((\<forall>inner. map_of kwargs ''kwargs'' \<noteq> Some (PDict inner)) \<longrightarrow>
        unwrap_envelope kwargs = kwargs)"
proof (intro conjI impI)
  show "unwrap_envelope [(''kwargs'', PDict m)] = m" by (rule unwrap_envelope_single)
next
  assume "\<forall>inner. m \<noteq> [(''kwargs'', PDict inner)]"
  then have "unwrap_envelope m = m" by (rule unwrap_envelope_other)
  then show "wrapper rt func sig ov [(''kwargs'', PDict m)] = wrapper rt func sig ov m"
    by (intro wrapper_unwrap_cong) (simp add: unwrap_envelope_single)
next
  assume "\<forall>inner. kwargs \<noteq> [(''kwargs'', PDict inner)]"
  then show "unwrap_envelope kwargs = kwargs" by (rule unwrap_envelope_other)
next
  assume "length kwargs \<noteq> 1"
  then show "unwrap_envelope kwargs = kwargs" by (simp add: unwrap_envelope_def)
next
  assume "\<forall>inner. map_of kwargs ''kwargs'' \<noteq> Some (PDict inner)"
  then have "\<forall>inner. kwargs \<noteq> [(''kwargs'', PDict inner)]" by auto
  then show "unwrap_envelope kwargs = kwargs" by (rule unwrap_envelope_other)
qed

text \<open>The spec's example \<^verbatim>\<open>{"kwargs": {"a": 1}}\<close> against \<^verbatim>\<open>{"a": 1}\<close>, and two mappings
  that are left as they are.\<close>

theorem envelope_unwrap_witness:
  "wrapper no_float_runtime echo_function [] empty_override [(''kwargs'', PDict [(''a'', PInt 1)])]
     = wrapper no_float_runtime echo_function [] empty_override [(''a'', PInt 1)]
   \<and> unwrap_envelope [(''kwargs'', PDict [(''a'', PInt 1)]), (''b'', PInt 2)]
     = [(''kwargs'', PDict [(''a'', PInt 1)]), (''b'', PInt 2)]
   \<and> unwrap_envelope [(''kwargs'', PStr ''a'')] = [(''kwargs'', PStr ''a'')]"
proof -
  have 1: "\<forall>inner. [(''a'', PInt 1)] \<noteq> [(''kwargs'', PDict inner)]" by simp
  have 2: "length [(''kwargs'', PDict [(''a'', PInt 1)]), (''b'', PInt 2)] \<noteq> 1" by simp
  have 3: "\<forall>inner. map_of [(''kwargs'', PStr ''a'')] ''kwargs'' \<noteq> Some (PDict inner)" by simp
  from envelope_unwrap [of "[(''a'', PInt 1)]" no_float_runtime echo_function "[]" empty_override
      "[(''kwargs'', PDict [(''a'', PInt 1)]), (''b'', PInt 2)]"] 1 2
  have A: "wrapper no_float_runtime echo_function [] empty_override
        [(''kwargs'', PDict [(''a'', PInt 1)])]
      = wrapper no_float_runtime echo_function [] empty_override [(''a'', PInt 1)]"
    and B: "unwrap_envelope [(''kwargs'', PDict [(''a'', PInt 1)]), (''b'', PInt 2)]
      = [(''kwargs'', PDict [(''a'', PInt 1)]), (''b'', PInt 2)]"
    by blast+
  from envelope_unwrap [of "[]" no_float_runtime echo_function "[]" empty_override
      "[(''kwargs'', PStr ''a'')]"] 3
  have C: "unwrap_envelope [(''kwargs'', PStr ''a'')] = [(''kwargs'', PStr ''a'')]"
    by blast
  from A B C show ?thesis by blast
qed

section \<open>Facts about dictionaries and the Normalizer\<close>

lemma map_of_fold_update:
  "map_of (fold (\<lambda>(k, v) acc. AList.update k v acc) e d) = map_of d ++ map_of (rev e)"
proof (induction e arbitrary: d)
  case Nil then show ?case by simp
next
  case (Cons x e)
  obtain k v where x: "x = (k, v)" by (cases x)
  show ?case
    by (simp add: x Cons update_conv' fun_eq_iff map_add_def split: option.splits)
qed

lemma map_of_rev_distinct:
  "distinct (map fst xs) \<Longrightarrow> map_of (rev xs) = map_of xs"
proof (induction xs)
  case Nil then show ?case by simp
next
  case (Cons x xs)
  obtain k v where x: "x = (k, v)" by (cases x)
  from Cons x have "map_of xs k = None" by (auto simp: map_of_eq_None_iff)
  with Cons x show ?case
    by (auto simp: fun_eq_iff map_add_def split: option.splits)
qed

lemma map_of_dict_update: "map_of (dict_update d e) = map_of d ++ map_of (rev e)"
  by (simp add: dict_update_def map_of_fold_update)

lemma map_of_fold_collect:
  "map_of (fold (\<lambda>(key, v) normalized.
             if \<not> has_key (canonical_key key) kwargs
             then AList.update (canonical_key key) v normalized else normalized) xs n)
   = map_of n ++ map_of (rev (map (\<lambda>(k, v). (canonical_key k, v))
     (filter (\<lambda>(k, v). \<not> has_key (canonical_key k) kwargs) xs)))"
proof (induction xs arbitrary: n)
  case Nil then show ?case by simp
next
  case (Cons x xs)
  obtain k v where x: "x = (k, v)" by (cases x)
  show ?case
    by (simp add: x Cons update_conv' fun_eq_iff map_add_def split: option.splits)
qed

lemma distinct_fold_collect:
  "distinct (map fst n) \<Longrightarrow> distinct (map fst (fold (\<lambda>(key, v) normalized.
             if \<not> has_key (canonical_key key) kwargs
             then AList.update (canonical_key key) v normalized else normalized) xs n))"
  by (induction xs arbitrary: n) (auto simp: distinct_update)

lemma map_of_collect_rewrites:
  "map_of (collect_rewrites kwargs) = map_of (rev (key_rewrites kwargs))"
  by (simp add: collect_rewrites_def key_rewrites_def map_of_fold_collect)

lemma distinct_collect_rewrites: "distinct (map fst (collect_rewrites kwargs))"
  by (simp add: collect_rewrites_def distinct_fold_collect)

lemma map_of_rewrite_keys:
  "map_of (rewrite_keys kwargs) = map_of kwargs ++ map_of (rev (key_rewrites kwargs))"
  by (simp add: rewrite_keys_def map_of_dict_update map_of_rev_distinct distinct_collect_rewrites
        map_of_collect_rewrites)
lemma key_rewrites_absent:
  "(c, v) \<in> set (key_rewrites kwargs) \<Longrightarrow> map_of kwargs c = None"
  by (auto simp: key_rewrites_def has_key_def)

lemma canonical_key_cases:
  "canonical_key k = k \<or> canonical_key k \<in> {''phone'', ''group_id'', ''contact_id'', ''template_id'', ''campaign_id''}"
  by (simp add: canonical_key_def)

lemma key_rewrites_target:
  assumes "(c, v) \<in> set (key_rewrites kwargs)"
  shows "c \<in> {''phone'', ''group_id'', ''contact_id'', ''template_id'', ''campaign_id''}"
proof -
  from assms obtain k where k: "(k, v) \<in> set kwargs" "c = canonical_key k"
    "\<not> has_key (canonical_key k) kwargs"
    by (auto simp: key_rewrites_def)
  from k(1) have "has_key k kwargs"
    by (auto simp: has_key_def map_of_eq_None_iff intro: rev_image_eqI)
  with k(3) have "canonical_key k \<noteq> k" by auto
  with canonical_key_cases [of k] k(2) show ?thesis by auto
qed

lemma map_of_rewrite_keys_present:
  "map_of kwargs k = Some v \<Longrightarrow> map_of (rewrite_keys kwargs) k = Some v"
proof -
  assume a: "map_of kwargs k = Some v"
  have "map_of (rev (key_rewrites kwargs)) k = None"
  proof (rule ccontr)
    assume "map_of (rev (key_rewrites kwargs)) k \<noteq> None"
    then obtain w where "map_of (rev (key_rewrites kwargs)) k = Some w" by auto
    then have "(k, w) \<in> set (key_rewrites kwargs)" by (auto dest: map_of_SomeD)
    with a show False by (auto dest: key_rewrites_absent)
  qed
  with a show ?thesis by (simp add: map_of_rewrite_keys map_add_def)
qed

lemma map_of_rewrite_keys_other:
  assumes "k \<notin> {''phone'', ''group_id'', ''contact_id'', ''template_id'', ''campaign_id''}"
  shows "map_of (rewrite_keys kwargs) k = map_of kwargs k"
proof -
  have "map_of (rev (key_rewrites kwargs)) k = None"
  proof (rule ccontr)
    assume "map_of (rev (key_rewrites kwargs)) k \<noteq> None"
    then obtain w where "map_of (rev (key_rewrites kwargs)) k = Some w" by auto
    then have "(k, w) \<in> set (key_rewrites kwargs)" by (auto dest: map_of_SomeD)
    from key_rewrites_target [OF this] assms show False by blast
  qed
  then show ?thesis by (simp add: map_of_rewrite_keys map_add_def)
qed

lemma map_of_expand_name_other:
  "k \<noteq> ''first_name'' \<Longrightarrow> k \<noteq> ''last_name'' \<Longrightarrow>
     map_of (expand_name rt kwargs) k = map_of kwargs k"
  by (simp add: expand_name_def Let_def update_conv')

lemma map_of_fold_contacts_other:
  "k \<noteq> ''phone'' \<Longrightarrow> map_of (fold_contacts rt kwargs) k = map_of kwargs k"
  by (simp add: fold_contacts_def update_conv' split: pyval.splits option.splits)

lemma expand_name_source:
  assumes "map_of kwargs ''first_name'' = None" "map_of kwargs ''last_name'' = None"
    and "map_of kwargs ''full_name'' = Some v
       \<or> map_of kwargs ''full_name'' = None \<and> map_of kwargs ''name'' = Some v"
  shows "expand_name rt kwargs =
     (if py_truthy rt v
      then (if length (name_parts rt v) = 1
            then AList.update ''first_name'' (PStr (hd (name_parts rt v))) kwargs
            else if 2 \<le> length (name_parts rt v)
            then AList.update ''last_name'' (PStr (last (name_parts rt v)))
                   (AList.update ''first_name''
                      (PStr (join '' '' (butlast (name_parts rt v)))) kwargs)
            else kwargs)
      else kwargs)"
proof -
  have v: "(if has_key ''full_name'' kwargs then get_or_none kwargs ''full_name''
             else if has_key ''name'' kwargs then get_or_none kwargs ''name''
             else PNone) = v"
    using assms(3) by (auto simp: has_key_def get_or_none_def)
  have g: "\<not> has_key ''first_name'' kwargs" "\<not> has_key ''last_name'' kwargs"
    using assms(1,2) by (simp_all add: has_key_def)
  show ?thesis unfolding expand_name_def v Let_def using g by simp
qed

section \<open>Name splitting\<close>

lemma normalize_name_keys:
  assumes "k = ''first_name'' \<or> k = ''last_name''"
  shows "map_of (normalize_kwargs rt kwargs) k = map_of (expand_name rt (rewrite_keys kwargs)) k"
  using assms by (auto simp: normalize_kwargs_def map_of_fold_contacts_other)

lemma name_parts_empty_string: "name_parts rt (PStr []) = []"
  by (simp add: name_parts_def str_defs)

text \<open>
  Claim C6, as stated, fails: the split is guarded by the truth value of the name. For
  \<^verbatim>\<open>{"full_name": 0}\<close> the trimmed string form \<^verbatim>\<open>"0"\<close> is one token, yet no
  \<^verbatim>\<open>first_name\<close> is set.
\<close>

theorem name_splitting_counterexample:
  "name_parts no_float_runtime (PInt 0) = [''0'']
   \<and> map_of (normalize_kwargs no_float_runtime [(''full_name'', PInt 0)]) ''first_name'' = None"
  by (simp add: norm_defs str_defs show_int_def show_nat.simps digit_char_def)

text \<open>
  Claim C6, amended. Let the arguments hold neither \<^verbatim>\<open>first_name\<close> nor \<^verbatim>\<open>last_name\<close>, and
  let \<^verbatim>\<open>v\<close> be the value of \<^verbatim>\<open>full_name\<close> or, when \<^verbatim>\<open>full_name\<close> is absent, of
  \<^verbatim>\<open>name\<close>. When \<^verbatim>\<open>v\<close> is truthy, the Normalizer splits its trimmed string form on
  whitespace: one token sets \<^verbatim>\<open>first_name\<close> to that token and leaves \<^verbatim>\<open>last_name\<close> absent;
  two or more tokens set \<^verbatim>\<open>first_name\<close> to all but the last joined by single spaces and
  \<^verbatim>\<open>last_name\<close> to the last. Zero tokens, or a falsy \<^verbatim>\<open>v\<close>, produce no expansion. A string
  is truthy unless it is empty, and the empty string has no token, so for a string value the
  truth value adds no condition.
\<close>

theorem name_splitting:
  assumes first: "map_of kwargs ''first_name'' = None"
    and last: "map_of kwargs ''last_name'' = None"
    and src: "map_of kwargs ''full_name'' = Some v
       \<or> map_of kwargs ''full_name'' = None \<and> map_of kwargs ''name'' = Some v"
  shows "(py_truthy rt v \<and> name_parts rt v = [t] \<longrightarrow>
            map_of (normalize_kwargs rt kwargs) ''first_name'' = Some (PStr t)
          \<and> map_of (normalize_kwargs rt kwargs) ''last_name'' = None)
       \<and> (py_truthy rt v \<and> 2 \<le> length (name_parts rt v) \<longrightarrow>
            map_of (normalize_kwargs rt kwargs) ''first_name''
              = Some (PStr (join '' '' (butlast (name_parts rt v))))
          \<and> map_of (normalize_kwargs rt kwargs) ''last_name''
              = Some (PStr (last (name_parts rt v))))
       \<and> (name_parts rt v = [] \<or> \<not> py_truthy rt v \<longrightarrow>
            map_of (normalize_kwargs rt kwargs) ''first_name'' = None
          \<and> map_of (normalize_kwargs rt kwargs) ''last_name'' = None)
       \<and> (\<forall>s. v = PStr s \<longrightarrow> py_truthy rt v \<or> name_parts rt v = [])"
proof -
  let ?kw = "rewrite_keys kwargs"
  have f: "map_of ?kw ''first_name'' = None" and l: "map_of ?kw ''last_name'' = None"
    using first last by (simp_all add: map_of_rewrite_keys_other)
  have s: "map_of ?kw ''full_name'' = Some v
       \<or> map_of ?kw ''full_name'' = None \<and> map_of ?kw ''name'' = Some v"
    using src by (simp add: map_of_rewrite_keys_other)
  note e = expand_name_source [OF f l s, of rt]
  have n1: "map_of (normalize_kwargs rt kwargs) ''first_name''
      = map_of (expand_name rt ?kw) ''first_name''"
    and n2: "map_of (normalize_kwargs rt kwargs) ''last_name''
      = map_of (expand_name rt ?kw) ''last_name''"
    by (simp_all add: normalize_name_keys)
  show ?thesis
  proof (intro conjI impI allI)
    assume a: "py_truthy rt v \<and> name_parts rt v = [t]"
    then show "map_of (normalize_kwargs rt kwargs) ''first_name'' = Some (PStr t)"
      and "map_of (normalize_kwargs rt kwargs) ''last_name'' = None"
      unfolding n1 n2 e using l by (simp_all add: update_conv')
  next
    assume a: "py_truthy rt v \<and> 2 \<le> length (name_parts rt v)"
    then show "map_of (normalize_kwargs rt kwargs) ''first_name''
              = Some (PStr (join '' '' (butlast (name_parts rt v))))"
      and "map_of (normalize_kwargs rt kwargs) ''last_name''
              = Some (PStr (last (name_parts rt v)))"
      unfolding n1 n2 e by (simp_all add: update_conv')
  next
    assume a: "name_parts rt v = [] \<or> \<not> py_truthy rt v"
    then show "map_of (normalize_kwargs rt kwargs) ''first_name'' = None"
      and "map_of (normalize_kwargs rt kwargs) ''last_name'' = None"
      unfolding n1 n2 e using f l by auto
  next
    fix s assume "v = PStr s"
    then show "py_truthy rt v \<or> name_parts rt v = []"
      by (cases "s = []") (simp_all add: py_truthy_def name_parts_empty_string)
  qed
qed

text \<open>The spec's examples \<^verbatim>\<open>{"full_name": "John"}\<close> and
  \<^verbatim>\<open>{"full_name": "John Paul Smith"}\<close>.\<close>

theorem name_splitting_witness:
  "map_of (normalize_kwargs no_float_runtime [(''full_name'', PStr ''John'')]) ''first_name''
     = Some (PStr ''John'')
   \<and> map_of (normalize_kwargs no_float_runtime [(''full_name'', PStr ''John'')]) ''last_name''
     = None
   \<and> map_of (normalize_kwargs no_float_runtime [(''full_name'', PStr ''John Paul Smith'')])
       ''first_name'' = Some (PStr ''John Paul'')
   \<and> map_of (normalize_kwargs no_float_runtime [(''full_name'', PStr ''John Paul Smith'')])
       ''last_name'' = Some (PStr ''Smith'')"
proof -
  let ?rt = no_float_runtime
  have p1: "name_parts ?rt (PStr ''John'') = [''John'']"
    and p2: "name_parts ?rt (PStr ''John Paul Smith'') = [''John'', ''Paul'', ''Smith'']"
    by (simp_all add: name_parts_def str_defs)
  have t: "py_truthy ?rt (PStr ''John'')" "py_truthy ?rt (PStr ''John Paul Smith'')"
    by (simp_all add: py_truthy_def)
  from name_splitting [of "[(''full_name'', PStr ''John'')]" "PStr ''John''" ?rt "''John''"] p1 t
  have A: "map_of (normalize_kwargs ?rt [(''full_name'', PStr ''John'')]) ''first_name''
       = Some (PStr ''John'')
     \<and> map_of (normalize_kwargs ?rt [(''full_name'', PStr ''John'')]) ''last_name'' = None"
    by simp
  from name_splitting [of "[(''full_name'', PStr ''John Paul Smith'')]"
      "PStr ''John Paul Smith''" ?rt "''x''"] p2 t
  have B: "map_of (normalize_kwargs ?rt [(''full_name'', PStr ''John Paul Smith'')])
       ''first_name'' = Some (PStr ''John Paul'')
     \<and> map_of (normalize_kwargs ?rt [(''full_name'', PStr ''John Paul Smith'')])
       ''last_name'' = Some (PStr ''Smith'')"
    by simp
  from A B show ?thesis by simp
qed

section \<open>String-list coercion\<close>

lemma to_str_list_list:
  "to_str_list rt (PList xs) =
     map strip_quotes (filter (\<lambda>t. t \<noteq> []) (map (\<lambda>x. str_strip (py_str rt x)) xs))"
  by (simp add: to_str_list_def filter_map comp_def)

lemma to_str_list_scalar:
  assumes "v \<noteq> PNone" "\<forall>xs. v \<noteq> PList xs"
  shows "to_str_list rt v =
     map strip_quotes (filter (\<lambda>t. t \<noteq> [])
       (map str_strip (split_on CHR '','' (unbracket (str_strip (py_str rt v))))))"
  using assms
  by (cases v) (simp_all add: to_str_list_def Let_def filter_map comp_def str_strip_fixed)

lemma to_str_list_elements:
  "e \<in> set (to_str_list rt v) \<Longrightarrow> e = [] \<or> (\<not> is_quote (hd e) \<and> \<not> is_quote (last e))"
proof -
  assume "e \<in> set (to_str_list rt v)"
  then obtain t where "e = strip_quotes t"
    by (cases v) (auto simp: to_str_list_def Let_def)
  then show ?thesis
    using strip_chars_lead [of is_quote t] strip_chars_trail [of is_quote t]
    by (auto simp: strip_quotes_def)
qed

text \<open>
  Claim C7, as stated, fails: elements are dropped when they are empty after trimming, before
  the quotes are stripped, so a list element that consists of quote characters only is kept
  as an empty string.
\<close>

theorem string_list_coercion_counterexample:
  "to_str_list no_float_runtime (PList [PStr [CHR 0x27, CHR 0x27]]) = [[]]
   \<and> claimed_str_list no_float_runtime (PList [PStr [CHR 0x27, CHR 0x27]]) = []"
  by (simp add: to_str_list_def claimed_str_list_def str_defs)

text \<open>
  Claim C7, amended. \<^verbatim>\<open>None\<close> coerces to the empty list. A native list maps to its elements
  stringified and trimmed, those that are then empty dropped, and every leading and trailing
  quote character of the remaining ones stripped. Any other value maps to its trimmed string
  form with one enclosing bracket layer stripped if present, split on commas, each piece
  trimmed, the pieces that are then empty dropped, and the remaining ones quote-stripped in
  the same way. No element of the result begins or ends with a quote character. In particular
  \<^verbatim>\<open>"a, b, c"\<close> coerces to \<^verbatim>\<open>["a","b","c"]\<close>, \<^verbatim>\<open>["a"," b "]\<close> to \<^verbatim>\<open>["a","b"]\<close> and
  \<^verbatim>\<open>"[a, b]"\<close> to \<^verbatim>\<open>["a","b"]\<close>.
\<close>

theorem string_list_coercion:
  "to_str_list rt PNone = []
   \<and> to_str_list rt (PList xs) =
       map strip_quotes (filter (\<lambda>t. t \<noteq> []) (map (\<lambda>x. str_strip (py_str rt x)) xs))
   \<and> (v \<noteq> PNone \<and> (\<forall>ys. v \<noteq> PList ys) \<longrightarrow>
        to_str_list rt v =
          map strip_quotes (filter (\<lambda>t. t \<noteq> [])
            (map str_strip (split_on CHR '','' (unbracket (str_strip (py_str rt v)))))))
   \<and> (\<forall>e \<in> set (to_str_list rt v). e = [] \<or> (\<not> is_quote (hd e) \<and> \<not> is_quote (last e)))
   \<and> to_str_list rt (PStr ''a, b, c'') = [''a'', ''b'', ''c'']
   \<and> to_str_list rt (PList [PStr ''a'', PStr '' b '']) = [''a'', ''b'']
   \<and> to_str_list rt (PStr ''[a, b]'') = [''a'', ''b'']"
proof (intro conjI impI ballI)
  show "to_str_list rt PNone = []" by (simp add: to_str_list_def)
next
  show "to_str_list rt (PList xs) =
       map strip_quotes (filter (\<lambda>t. t \<noteq> []) (map (\<lambda>x. str_strip (py_str rt x)) xs))"
    by (rule to_str_list_list)
next
  assume "v \<noteq> PNone \<and> (\<forall>ys. v \<noteq> PList ys)"
  then show "to_str_list rt v =
          map strip_quotes (filter (\<lambda>t. t \<noteq> [])
            (map str_strip (split_on CHR '','' (unbracket (str_strip (py_str rt v))))))"
    by (intro to_str_list_scalar) simp_all
next
  fix e assume "e \<in> set (to_str_list rt v)"
  then show "e = [] \<or> (\<not> is_quote (hd e) \<and> \<not> is_quote (last e))"
    by (rule to_str_list_elements)
next
  show "to_str_list rt (PStr ''a, b, c'') = [''a'', ''b'', ''c'']"
    by (simp add: to_str_list_def str_defs)
next
  show "to_str_list rt (PList [PStr ''a'', PStr '' b '']) = [''a'', ''b'']"
    by (simp add: to_str_list_def str_defs)
next
  show "to_str_list rt (PStr ''[a, b]'') = [''a'', ''b'']"
    by (simp add: to_str_list_def str_defs)
qed

text \<open>The scalar \<^verbatim>\<open>" ['x', "y"] "\<close>: trimmed, unbracketed, split, trimmed and
  quote-stripped.\<close>

theorem string_list_coercion_witness:
  "to_str_list no_float_runtime
     (PStr [CHR '' '', CHR ''['', CHR 0x27, CHR ''x'', CHR 0x27, CHR '','', CHR '' '',
            CHR 0x22, CHR ''y'', CHR 0x22, CHR '']'', CHR '' ''])
   = [''x'', ''y'']
   \<and> \<not> is_quote (hd ''x'') \<and> \<not> is_quote (last ''y'')"
proof -
  let ?v = "PStr [CHR '' '', CHR ''['', CHR 0x27, CHR ''x'', CHR 0x27, CHR '','', CHR '' '',
            CHR 0x22, CHR ''y'', CHR 0x22, CHR '']'', CHR '' '']"
  have s: "?v \<noteq> PNone \<and> (\<forall>ys. ?v \<noteq> PList ys)" by simp
  from string_list_coercion [of no_float_runtime "[]" ?v] s
  have eq: "to_str_list no_float_runtime ?v =
          map strip_quotes (filter (\<lambda>t. t \<noteq> [])
            (map str_strip (split_on CHR '','' (unbracket (str_strip (py_str no_float_runtime ?v))))))"
    and el: "\<forall>e \<in> set (to_str_list no_float_runtime ?v).
               e = [] \<or> (\<not> is_quote (hd e) \<and> \<not> is_quote (last e))"
    by blast+
  have r: "to_str_list no_float_runtime ?v = [''x'', ''y'']"
    unfolding eq by (simp add: str_defs)
  with el show ?thesis by simp
qed

section \<open>Defaults and binding\<close>

lemma map_of_seed_defaults:
  "distinct (map fst (defaults ov)) \<Longrightarrow> map_of (seed_defaults ov) = map_of (defaults ov)"
  by (simp add: seed_defaults_def map_of_dict_update map_of_rev_distinct)

lemma map_of_fold_pass_through:
  "map_of (fold (\<lambda>(k, v) b. if \<not> has_key k b then AList.update k v b else b) kwargs bound)
     = map_of kwargs ++ map_of bound"
proof (induction kwargs arbitrary: bound)
  case Nil then show ?case by simp
next
  case (Cons x kwargs)
  obtain k v where x: "x = (k, v)" by (cases x)
  show ?case
  proof (cases "has_key k bound")
    case True
    then have "map_of (fold (\<lambda>(k, v) b. if \<not> has_key k b then AList.update k v b else b)
        (x # kwargs) bound) = map_of kwargs ++ map_of bound"
      by (simp add: x Cons)
    with True show ?thesis
      by (auto simp: x has_key_def fun_eq_iff map_add_def split: option.splits)
  next
    case False
    then have "map_of (fold (\<lambda>(k, v) b. if \<not> has_key k b then AList.update k v b else b)
        (x # kwargs) bound) = map_of kwargs ++ map_of (AList.update k v bound)"
      by (simp add: x Cons)
    with False show ?thesis
      by (auto simp: x update_conv' has_key_def fun_eq_iff map_add_def split: option.splits)
  qed
qed

lemma map_of_pass_through:
  "map_of (pass_through kwargs bound) = map_of kwargs ++ map_of bound"
  by (simp add: pass_through_def map_of_fold_pass_through)

lemma bind_params_other:
  "bind_params rt ov kwargs sig b0 = Inr b \<Longrightarrow>
     k \<notin> pname ` set sig \<or> map_of kwargs k = None \<Longrightarrow> map_of b k = map_of b0 k"
proof (induction sig arbitrary: b0)
  case Nil then show ?case by simp
next
  case (Cons p ps)
  show ?case
  proof (cases "map_of kwargs (pname p)")
    case None
    with Cons show ?thesis by auto
  next
    case (Some v)
    with Cons.prems(1) obtain c where c: "coerce_value rt (resolve_kind ov p) v = Inr c"
      and r: "bind_params rt ov kwargs ps (AList.update (pname p) c b0) = Inr b"
      by (auto split: sum.splits)
    from Cons.prems(2) Some have ne: "k \<noteq> pname p" by auto
    from Cons.prems(2) have "k \<notin> pname ` set ps \<or> map_of kwargs k = None" by auto
    from Cons.IH [OF r this] ne show ?thesis by (simp add: update_conv')
  qed
qed

lemma bind_params_declared:
  "bind_params rt ov kwargs sig b0 = Inr b \<Longrightarrow> distinct (map pname sig) \<Longrightarrow>
     p \<in> set sig \<Longrightarrow> map_of kwargs (pname p) = Some v \<Longrightarrow>
     \<exists>c. coerce_value rt (resolve_kind ov p) v = Inr c \<and> map_of b (pname p) = Some c"
proof (induction sig arbitrary: b0)
  case Nil then show ?case by simp
next
  case (Cons q qs)
  show ?case
  proof (cases "p = q")
    case True
    with Cons.prems obtain c where c: "coerce_value rt (resolve_kind ov p) v = Inr c"
      and r: "bind_params rt ov kwargs qs (AList.update (pname p) c b0) = Inr b"
      by (auto split: sum.splits)
    from Cons.prems(2) True have "pname p \<notin> pname ` set qs" by auto
    then have "map_of b (pname p) = map_of (AList.update (pname p) c b0) (pname p)"
      by (intro bind_params_other [OF r]) simp
    with c show ?thesis by (simp add: update_conv')
  next
    case False
    with Cons.prems have p: "p \<in> set qs" and d: "distinct (map pname qs)" by auto
    from Cons.prems(1) obtain b1 where "bind_params rt ov kwargs qs b1 = Inr b"
      by (auto split: option.splits sum.splits)
    from Cons.IH [OF this d p Cons.prems(4)] show ?thesis .
  qed
qed

text \<open>
  Claim C8, as stated, fails in its last clause: a caller-supplied key that is no declared
  parameter is passed through only when the Binding does not hold that key yet. With
  \<^verbatim>\<open>defaults = {"x": 1}\<close>, no parameter \<^verbatim>\<open>x\<close> and the call \<^verbatim>\<open>{"x": 2}\<close>, the domain function
  is invoked with \<^verbatim>\<open>x = 1\<close>.
\<close>

theorem binding_construction_counterexample:
  "pipeline no_float_runtime [] (empty_override \<lparr> defaults := [(''x'', PInt 1)] \<rparr>)
     [(''x'', PInt 2)] = Inr (Invoke [(''x'', PInt 1)])"
  by (simp add: wrap_defs norm_defs empty_override_def)

text \<open>
  Claim C8, amended. For a call whose coercions all succeed, with \<^verbatim>\<open>kwargs\<close> the arguments
  after normalization and alias resolution: the Binding is seeded with every pair of
  \<^verbatim>\<open>defaults\<close>, and a default stays in the Binding when the caller supplies nothing under
  its name; the value supplied for a declared parameter is coerced at the resolved kind and
  stored, overwriting any seeded default; and every other supplied key that is neither a
  declared parameter nor a key of \<^verbatim>\<open>defaults\<close> is in the Binding with its value unchanged.
\<close>

theorem binding_construction:
  assumes bound: "bind_args rt sig ov kwargs = Inr bound"
    and sig: "distinct (map pname sig)"
    and dflt: "distinct (map fst (defaults ov))"
  shows "map_of (seed_defaults ov) = map_of (defaults ov)
       \<and> (\<forall>k d. map_of (defaults ov) k = Some d \<and> map_of kwargs k = None \<longrightarrow>
             map_of bound k = Some d)
       \<and> (\<forall>p v. p \<in> set sig \<and> map_of kwargs (pname p) = Some v \<longrightarrow>
             (\<exists>c. coerce_value rt (resolve_kind ov p) v = Inr c
                \<and> map_of bound (pname p) = Some c))
       \<and> (\<forall>k v. map_of kwargs k = Some v \<and> k \<notin> pname ` set sig
               \<and> map_of (defaults ov) k = None \<longrightarrow>
             map_of bound k = Some v)"
proof -
  from bound obtain b where b: "bind_params rt ov kwargs sig (seed_defaults ov) = Inr b"
    and pt: "bound = pass_through kwargs b"
    by (auto simp: bind_args_def split: sum.splits)
  note sd = map_of_seed_defaults [OF dflt]
  have m: "map_of bound k = (case map_of b k of None \<Rightarrow> map_of kwargs k | Some v \<Rightarrow> Some v)" for k
    by (simp add: pt map_of_pass_through map_add_def)
  show ?thesis
  proof (intro conjI allI impI)
    show "map_of (seed_defaults ov) = map_of (defaults ov)" by (rule sd)
  next
    fix k d
    assume a: "map_of (defaults ov) k = Some d \<and> map_of kwargs k = None"
    then have "map_of b k = map_of (seed_defaults ov) k"
      by (intro bind_params_other [OF b]) simp
    with a show "map_of bound k = Some d" by (simp add: m sd)
  next
    fix p v
    assume a: "p \<in> set sig \<and> map_of kwargs (pname p) = Some v"
    then obtain c where "coerce_value rt (resolve_kind ov p) v = Inr c"
      "map_of b (pname p) = Some c"
      using bind_params_declared [OF b sig, of p v] by blast
    then show "\<exists>c. coerce_value rt (resolve_kind ov p) v = Inr c
                \<and> map_of bound (pname p) = Some c"
      by (simp add: m)
  next
    fix k v
    assume a: "map_of kwargs k = Some v \<and> k \<notin> pname ` set sig
               \<and> map_of (defaults ov) k = None"
    then have "map_of b k = map_of (seed_defaults ov) k"
      by (intro bind_params_other [OF b]) simp
    with a show "map_of bound k = Some v" by (simp add: m sd)
  qed
qed

text \<open>The call of the spec's end-to-end scenario with one more key, \<^verbatim>\<open>note\<close>, that the
  function does not declare: the default \<^verbatim>\<open>schedule = False\<close> stays, the string
  \<^verbatim>\<open>"+233200000000"\<close> is coerced to a list, and \<^verbatim>\<open>note\<close> passes through.\<close>

theorem binding_construction_witness:
  "map_of [(''schedule'', PBool False), (''recipient'', PList [PStr ''+233200000000'']),
           (''sender_id'', PStr ''ACME''), (''note'', PInt 7)] ''schedule'' = Some (PBool False)
   \<and> (\<exists>c. coerce_value no_float_runtime ''list[str]'' (PStr ''+233200000000'') = Inr c
        \<and> map_of [(''schedule'', PBool False), (''recipient'', PList [PStr ''+233200000000'']),
             (''sender_id'', PStr ''ACME''), (''note'', PInt 7)] ''recipient'' = Some c)
   \<and> map_of [(''schedule'', PBool False), (''recipient'', PList [PStr ''+233200000000'']),
           (''sender_id'', PStr ''ACME''), (''note'', PInt 7)] ''note'' = Some (PInt 7)
   \<and> bind_args no_float_runtime send_quick_bulk_sms_signature send_quick_bulk_sms_override
        [(''recipient'', PStr ''+233200000000''), (''sender_id'', PStr ''ACME''),
         (''note'', PInt 7)]
      = Inr [(''schedule'', PBool False), (''recipient'', PList [PStr ''+233200000000'']),
             (''sender_id'', PStr ''ACME''), (''note'', PInt 7)]"
proof -
  let ?rt = no_float_runtime
  let ?ov = send_quick_bulk_sms_override
  let ?sig = send_quick_bulk_sms_signature
  let ?kw = "[(''recipient'', PStr ''+233200000000''), (''sender_id'', PStr ''ACME''),
         (''note'', PInt 7)]"
  let ?b = "[(''schedule'', PBool False), (''recipient'', PList [PStr ''+233200000000'']),
             (''sender_id'', PStr ''ACME''), (''note'', PInt 7)]"
  let ?p = "\<lparr> pname = ''recipient'', pannotation = Unannotated, has_default = False \<rparr>"
  have b: "bind_args ?rt ?sig ?ov ?kw = Inr ?b"
    by (simp add: wrap_defs has_key_def dict_update_def str_defs
          send_quick_bulk_sms_signature_def send_quick_bulk_sms_override_def)
  have s: "distinct (map pname ?sig)" by (simp add: send_quick_bulk_sms_signature_def)
  have d: "distinct (map fst (defaults ?ov))" by (simp add: send_quick_bulk_sms_override_def)
  have h1: "map_of (defaults ?ov) ''schedule'' = Some (PBool False) \<and> map_of ?kw ''schedule'' = None"
    by (simp add: send_quick_bulk_sms_override_def)
  have h2: "?p \<in> set ?sig \<and> map_of ?kw (pname ?p) = Some (PStr ''+233200000000'')"
    by (simp add: send_quick_bulk_sms_signature_def)
  have h3: "map_of ?kw ''note'' = Some (PInt 7) \<and> ''note'' \<notin> pname ` set ?sig
      \<and> map_of (defaults ?ov) ''note'' = None"
    by (simp add: send_quick_bulk_sms_signature_def send_quick_bulk_sms_override_def)
  have k: "resolve_kind ?ov ?p = ''list[str]''"
    by (simp add: resolve_kind_def send_quick_bulk_sms_override_def)
  note t = binding_construction [OF b s d]
  from t h1 have A: "map_of ?b ''schedule'' = Some (PBool False)" by blast
  from t h2 have "\<exists>c. coerce_value ?rt (resolve_kind ?ov ?p) (PStr ''+233200000000'') = Inr c
        \<and> map_of ?b (pname ?p) = Some c" by blast
  then have B: "\<exists>c. coerce_value ?rt ''list[str]'' (PStr ''+233200000000'') = Inr c
        \<and> map_of ?b ''recipient'' = Some c" by (simp add: k)
  from t h3 have C: "map_of ?b ''note'' = Some (PInt 7)" by blast
  from A B C b show ?thesis by blast
qed

section \<open>The Normalizer copies, the Alias Resolver moves\<close>

lemma expand_name_present:
  assumes "map_of kwargs j = Some w"
  shows "map_of (expand_name rt kwargs) j = Some w"
proof (cases "j = ''first_name'' \<or> j = ''last_name''")
  case True
  with assms have "has_key ''first_name'' kwargs \<or> has_key ''last_name'' kwargs"
    by (auto simp: has_key_def)
  then have "expand_name rt kwargs = kwargs" by (auto simp: expand_name_def Let_def)
  with assms show ?thesis by simp
next
  case False
  with assms show ?thesis by (simp add: map_of_expand_name_other)
qed

lemma fold_contacts_present:
  assumes "map_of kwargs j = Some w"
  shows "map_of (fold_contacts rt kwargs) j = Some w"
proof (cases "j = ''phone''")
  case True
  with assms have "has_key ''phone'' kwargs" by (auto simp: has_key_def)
  then have "fold_contacts rt kwargs = kwargs" by (simp add: fold_contacts_def)
  with assms show ?thesis by simp
next
  case False
  with assms show ?thesis by (simp add: map_of_fold_contacts_other)
qed

lemma normalize_present:
  "map_of kwargs j = Some w \<Longrightarrow> map_of (normalize_kwargs rt kwargs) j = Some w"
  by (simp add: normalize_kwargs_def fold_contacts_present expand_name_present
        map_of_rewrite_keys_present)

lemma key_rewrites_member:
  "(c, w) \<in> set (key_rewrites kwargs) \<Longrightarrow>
     \<exists>k. (k, w) \<in> set kwargs \<and> canonical_key k = c"
  by (auto simp: key_rewrites_def)

lemma rewrite_keys_canonical_some:
  assumes "map_of kwargs k = Some v" "map_of kwargs (canonical_key k) = None"
  shows "\<exists>k' v'. (k', v') \<in> set kwargs \<and> canonical_key k' = canonical_key k
           \<and> map_of (rewrite_keys kwargs) (canonical_key k) = Some v'"
proof -
  let ?c = "canonical_key k"
  from assms have "(k, v) \<in> set kwargs" by (auto dest: map_of_SomeD)
  with assms(2) have "(?c, v) \<in> set (rev (key_rewrites kwargs))"
    by (force simp: key_rewrites_def has_key_def)
  then have "map_of (rev (key_rewrites kwargs)) ?c \<noteq> None"
    by (auto simp: map_of_eq_None_iff intro: rev_image_eqI)
  then obtain v' where v': "map_of (rev (key_rewrites kwargs)) ?c = Some v'" by auto
  then have "(?c, v') \<in> set (key_rewrites kwargs)" by (auto dest: map_of_SomeD)
  from key_rewrites_member [OF this] obtain k'
    where "(k', v') \<in> set kwargs" "canonical_key k' = ?c" by blast
  moreover from v' have "map_of (rewrite_keys kwargs) ?c = Some v'"
    by (simp add: map_of_rewrite_keys map_add_def)
  ultimately show ?thesis by blast
qed

lemma rewrite_keys_canonical_last:
  assumes kw: "kwargs = xs @ (k, v) # ys"
    and later: "\<forall>(k', v') \<in> set ys. canonical_key k' \<noteq> canonical_key k"
    and absent: "map_of kwargs (canonical_key k) = None"
  shows "map_of (rewrite_keys kwargs) (canonical_key k) = Some v"
proof -
  let ?c = "canonical_key k"
  let ?f = "\<lambda>(k, v). (canonical_key k, v :: pyval)"
  define Q where "Q = (\<lambda>(k', v' :: pyval). \<not> has_key (canonical_key k') kwargs)"
  have P: "Q (k, v)" using absent by (simp add: Q_def has_key_def)
  have "key_rewrites kwargs = map ?f (filter Q kwargs)"
    by (simp add: key_rewrites_def Q_def)
  also have "\<dots> = map ?f (filter Q xs) @ (?c, v) # map ?f (filter Q ys)"
    by (subst kw) (simp add: P)
  finally have r: "rev (key_rewrites kwargs)
      = rev (map ?f (filter Q ys)) @ (?c, v) # rev (map ?f (filter Q xs))"
    by simp
  have "?c \<notin> fst ` set (rev (map ?f (filter Q ys)))" using later by force
  then have "map_of (rev (map ?f (filter Q ys))) ?c = None"
    by (simp add: map_of_eq_None_iff)
  then have "map_of (rev (key_rewrites kwargs)) ?c = Some v"
    unfolding r by (simp add: map_add_def)
  then show ?thesis by (simp add: map_of_rewrite_keys map_add_def)
qed

lemma map_of_apply_alias:
  "map_of (apply_alias (a, c) kwargs) =
     (case map_of kwargs a of
        None \<Rightarrow> map_of kwargs
      | Some v \<Rightarrow> if map_of kwargs c = None then ((map_of kwargs)(a := None))(c \<mapsto> v)
                  else map_of kwargs)"
  by (auto simp: apply_alias_def has_key_def update_conv' delete_conv' split: option.splits)

lemma apply_aliases_keeps:
  "map_of kwargs j = Some w \<Longrightarrow> j \<notin> fst ` set al \<Longrightarrow>
     map_of (fold apply_alias al kwargs) j = Some w"
proof (induction al arbitrary: kwargs)
  case Nil then show ?case by simp
next
  case (Cons x al)
  obtain a c where x: "x = (a, c)" by (cases x)
  from Cons.prems x have "j \<noteq> a" by auto
  with Cons.prems(1) have "map_of (apply_alias (a, c) kwargs) j = Some w"
    by (auto simp: map_of_apply_alias split: option.splits)
  with Cons show ?case by (simp add: x)
qed

lemma map_of_rev_None: "map_of (rev xs) k = None \<longleftrightarrow> map_of xs k = None"
  by (simp add: map_of_eq_None_iff)

lemma bind_args_passes:
  assumes "bind_args rt sig ov kwargs = Inr bound" "map_of kwargs j = Some w"
  shows "map_of bound j \<noteq> None"
    and "j \<notin> pname ` set sig \<Longrightarrow> map_of (defaults ov) j = None \<Longrightarrow> map_of bound j = Some w"
proof -
  from assms(1) obtain b where b: "bind_params rt ov kwargs sig (seed_defaults ov) = Inr b"
    and pt: "bound = pass_through kwargs b"
    by (auto simp: bind_args_def split: sum.splits)
  show "map_of bound j \<noteq> None"
    using assms(2) by (simp add: pt map_of_pass_through map_add_def split: option.splits)
  assume u: "j \<notin> pname ` set sig" and d: "map_of (defaults ov) j = None"
  from u have "map_of b j = map_of (seed_defaults ov) j"
    by (intro bind_params_other [OF b]) simp
  also have "\<dots> = None"
    using d by (simp add: seed_defaults_def map_of_dict_update map_of_rev_None)
  finally show "map_of bound j = Some w"
    using assms(2) by (simp add: pt map_of_pass_through map_add_def)
qed

lemma pipeline_Invoke:
  "pipeline rt sig ov kwargs = Inr (Invoke b) \<Longrightarrow>
     bind_args rt sig ov (resolve_kwargs rt ov (unwrap_envelope kwargs)) = Inr b"
  by (auto simp: pipeline_def validate_def Let_def split: sum.splits if_splits option.splits)

lemma apply_alias_relocates:
  assumes "map_of kwargs a = Some w" "map_of kwargs c = None"
  shows "map_of (apply_alias (a, c) kwargs) a = None"
    and "map_of (apply_alias (a, c) kwargs) c = Some w"
proof -
  from assms have ne: "a \<noteq> c" by auto
  from assms have m: "map_of (apply_alias (a, c) kwargs) = ((map_of kwargs)(a := None))(c \<mapsto> w)"
    by (simp add: map_of_apply_alias)
  from ne show "map_of (apply_alias (a, c) kwargs) a = None" by (simp add: m)
  show "map_of (apply_alias (a, c) kwargs) c = Some w" by (simp add: m)
qed

lemma apply_alias_idle:
  "map_of kwargs a = None \<or> map_of kwargs c \<noteq> None \<Longrightarrow> apply_alias (a, c) kwargs = kwargs"
  by (auto simp: apply_alias_def has_key_def split: option.splits)

lemma apply_alias_fired:
  "apply_alias (a, c) kwargs \<noteq> kwargs \<Longrightarrow>
     \<exists>w. map_of kwargs a = Some w \<and> map_of kwargs c = None
       \<and> map_of (apply_alias (a, c) kwargs) = ((map_of kwargs)(a := None))(c \<mapsto> w)"
  by (cases "map_of kwargs a"; cases "map_of kwargs c")
     (simp_all add: apply_alias_def has_key_def update_conv' delete_conv')

lemma fold_apply_alias_stays:
  assumes "map_of kwargs k = Some v"
    and "fst ` set al \<subseteq> F"
    and "\<forall>c. (k, c) \<in> set al \<longrightarrow> c \<notin> F \<and> map_of kwargs c \<noteq> None"
  shows "map_of (fold apply_alias al kwargs) k = Some v"
  using assms
proof (induction al arbitrary: kwargs)
  case Nil then show ?case by simp
next
  case (Cons x al)
  obtain a c' where x: "x = (a, c')" by (cases x)
  let ?kw = "apply_alias (a, c') kwargs"
  from Cons.prems(2) x have aF: "a \<in> F" and sub: "fst ` set al \<subseteq> F" by auto
  have keep: "map_of ?kw k = Some v
      \<and> (\<forall>c. (k, c) \<in> set al \<longrightarrow> c \<notin> F \<and> map_of ?kw c \<noteq> None)"
  proof (cases "?kw = kwargs")
    case True
    with Cons.prems(1,3) show ?thesis by simp
  next
    case False
    from apply_alias_fired [OF False] obtain w
      where aw: "map_of kwargs a = Some w" and cn: "map_of kwargs c' = None"
        and m: "map_of ?kw = ((map_of kwargs)(a := None))(c' \<mapsto> w)" by blast
    have ak: "a \<noteq> k"
    proof
      assume "a = k"
      with Cons.prems(3) x have "map_of kwargs c' \<noteq> None" by simp
      with cn show False by simp
    qed
    from cn Cons.prems(1) have ck: "c' \<noteq> k" by auto
    from ak ck have ne: "k \<noteq> a" "k \<noteq> c'" by auto
    have 1: "map_of ?kw k = Some v" using Cons.prems(1) ne by (simp add: m)
    have 2: "c \<notin> F \<and> map_of ?kw c \<noteq> None" if "(k, c) \<in> set al" for c
    proof -
      from that Cons.prems(3) have cF: "c \<notin> F" and cp: "map_of kwargs c \<noteq> None" by simp_all
      from cF aF have "c \<noteq> a" by auto
      with cp have "map_of ?kw c \<noteq> None" by (simp add: m)
      with cF show ?thesis by simp
    qed
    from 1 2 show ?thesis by blast
  qed
  from keep have k1: "map_of ?kw k = Some v"
    and k2: "\<forall>c. (k, c) \<in> set al \<longrightarrow> c \<notin> F \<and> map_of ?kw c \<noteq> None" by blast+
  from Cons.IH [OF k1 sub k2] show ?case by (simp add: x)
qed

lemma canonical_key_variants:
  "canonical_key ''phoneNumber'' = ''phone''" "canonical_key ''phone_number'' = ''phone''"
  "canonical_key ''groupId'' = ''group_id''" "canonical_key ''group'' = ''group_id''"
  "canonical_key ''contactId'' = ''contact_id''" "canonical_key ''templateId'' = ''template_id''"
  "canonical_key ''campaignId'' = ''campaign_id''"
  by (simp_all add: canonical_key_def)

lemma canonical_key_variant_iff:
  "canonical_key k \<noteq> k \<longleftrightarrow>
     k \<in> set [''phoneNumber'', ''phone_number'', ''groupId'', ''group'', ''contactId'',
               ''templateId'', ''campaignId'']"
  by (auto simp: canonical_key_def)

text \<open>
  Claim C10, as stated, fails where it says which value is written: with two variants of one
  canonical key in the input, the later one supplies the value. For
  \<^verbatim>\<open>{"phoneNumber": "1", "phone_number": "2"}\<close> the key \<^verbatim>\<open>phoneNumber\<close> is present with the
  canonical key \<^verbatim>\<open>phone\<close> absent, yet \<^verbatim>\<open>phone\<close> ends up bound to \<^verbatim>\<open>"2"\<close>.
\<close>

theorem key_rewrites_copy_counterexample:
  "canonical_key ''phoneNumber'' = ''phone''
   \<and> map_of [(''phoneNumber'', PStr ''1''), (''phone_number'', PStr ''2'')] ''phone'' = None
   \<and> map_of (normalize_kwargs no_float_runtime
        [(''phoneNumber'', PStr ''1''), (''phone_number'', PStr ''2'')]) ''phone''
      = Some (PStr ''2'')"
  by code_simp

text \<open>
  Claim C10, amended. The variant keys are \<^verbatim>\<open>phoneNumber\<close>, \<^verbatim>\<open>phone_number\<close>, \<^verbatim>\<open>groupId\<close>,
  \<^verbatim>\<open>group\<close>, \<^verbatim>\<open>contactId\<close>, \<^verbatim>\<open>templateId\<close> and \<^verbatim>\<open>campaignId\<close>. Let the arguments (after the
  envelope is unwrapped) hold a variant key \<^verbatim>\<open>k\<close> with value \<^verbatim>\<open>v\<close> while its canonical key is
  absent. After the Normalizer, \<^verbatim>\<open>k\<close> is still bound to \<^verbatim>\<open>v\<close>, and the canonical key is bound
  to the value of the last key of the input, in the mapping's order, that rewrites to it (to
  \<^verbatim>\<open>v\<close> itself when no later key does). The Normalizer removes no key and changes no value of
  the input. An alias pair whose alias is present and whose canonical key is absent relocates
  the value: the alias key is removed and the canonical key bound to its value; any other
  alias pair changes nothing, and a key that is no alias key is never touched. The key \<^verbatim>\<open>k\<close>
  survives alias resolution with its value whenever every canonical key that the table gives
  for \<^verbatim>\<open>k\<close> is present after normalization and is no alias key itself (in particular when
  \<^verbatim>\<open>k\<close> is no alias key). Whenever \<^verbatim>\<open>k\<close> is present after alias resolution and the domain
  function is invoked, its Binding holds \<^verbatim>\<open>k\<close>, with the value unchanged when \<^verbatim>\<open>k\<close> is
  neither a declared parameter nor a key of \<^verbatim>\<open>defaults\<close>.
\<close>

theorem key_rewrites_copy:
  assumes present: "map_of args k = Some v"
    and variant: "canonical_key k \<noteq> k"
    and absent: "map_of args (canonical_key k) = None"
  shows "map_of (normalize_kwargs rt args) k = Some v
       \<and> (\<forall>xs ys k' v'. args = xs @ (k', v') # ys \<and> canonical_key k' = canonical_key k
               \<and> (\<forall>(k'', v'') \<in> set ys. canonical_key k'' \<noteq> canonical_key k) \<longrightarrow>
             map_of (normalize_kwargs rt args) (canonical_key k) = Some v')
       \<and> (\<exists>k' v'. (k', v') \<in> set args \<and> canonical_key k' = canonical_key k
             \<and> map_of (normalize_kwargs rt args) (canonical_key k) = Some v')
       \<and> (\<forall>j w. map_of args j = Some w \<longrightarrow> map_of (normalize_kwargs rt args) j = Some w)
       \<and> (\<forall>(kw :: pydict) a c w. map_of kw a = Some w \<and> map_of kw c = None \<longrightarrow>
             map_of (apply_alias (a, c) kw) a = None
           \<and> map_of (apply_alias (a, c) kw) c = Some w)
       \<and> (\<forall>(kw :: pydict) a c. map_of kw a = None \<or> map_of kw c \<noteq> None \<longrightarrow>
             apply_alias (a, c) kw = kw)
       \<and> (\<forall>(kw :: pydict) j w. map_of kw j = Some w \<and> j \<notin> fst ` set (aliases ov) \<longrightarrow>
             map_of (apply_aliases ov kw) j = Some w)
       \<and> ((\<forall>c. (k, c) \<in> set (aliases ov) \<longrightarrow>
               c \<notin> fst ` set (aliases ov) \<and> map_of (normalize_kwargs rt args) c \<noteq> None) \<longrightarrow>
             map_of (resolve_kwargs rt ov args) k = Some v)
       \<and> (\<forall>b v'. unwrap_envelope kwargs = args \<and> pipeline rt sig ov kwargs = Inr (Invoke b)
               \<and> map_of (resolve_kwargs rt ov args) k = Some v' \<longrightarrow>
             map_of b k \<noteq> None
           \<and> (k \<notin> pname ` set sig \<and> map_of (defaults ov) k = None \<longrightarrow> map_of b k = Some v'))
       \<and> k \<in> set [''phoneNumber'', ''phone_number'', ''groupId'', ''group'', ''contactId'',
                    ''templateId'', ''campaignId'']
       \<and> canonical_key ''phoneNumber'' = ''phone'' \<and> canonical_key ''phone_number'' = ''phone''
       \<and> canonical_key ''groupId'' = ''group_id'' \<and> canonical_key ''group'' = ''group_id''
       \<and> canonical_key ''contactId'' = ''contact_id''
       \<and> canonical_key ''templateId'' = ''template_id''
       \<and> canonical_key ''campaignId'' = ''campaign_id''"
proof -
  have n: "map_of (normalize_kwargs rt args) k = Some v"
    using present by (rule normalize_present)
  have last_wins: "map_of (normalize_kwargs rt args) (canonical_key k) = Some v'"
    if a: "args = xs @ (k', v') # ys \<and> canonical_key k' = canonical_key k
               \<and> (\<forall>(k'', v'') \<in> set ys. canonical_key k'' \<noteq> canonical_key k)"
    for xs ys k' v'
  proof -
    from a absent have "map_of args (canonical_key k') = None"
      and "\<forall>(k'', v'') \<in> set ys. canonical_key k'' \<noteq> canonical_key k'"
      by simp_all
    with a have "map_of (rewrite_keys args) (canonical_key k') = Some v'"
      by (intro rewrite_keys_canonical_last [of args xs k' v' ys]) simp_all
    with a show ?thesis
      by (simp add: normalize_kwargs_def fold_contacts_present expand_name_present)
  qed
  have some: "\<exists>k' v'. (k', v') \<in> set args \<and> canonical_key k' = canonical_key k
             \<and> map_of (normalize_kwargs rt args) (canonical_key k) = Some v'"
  proof -
    from rewrite_keys_canonical_some [OF present absent] obtain k' v'
      where "(k', v') \<in> set args" "canonical_key k' = canonical_key k"
        "map_of (rewrite_keys args) (canonical_key k) = Some v'" by blast
    then show ?thesis
      by (auto simp: normalize_kwargs_def intro!: fold_contacts_present expand_name_present)
  qed
  have stays: "map_of (resolve_kwargs rt ov args) k = Some v"
    if "\<forall>c. (k, c) \<in> set (aliases ov) \<longrightarrow>
               c \<notin> fst ` set (aliases ov) \<and> map_of (normalize_kwargs rt args) c \<noteq> None"
  proof -
    from n that
    have "map_of (fold apply_alias (aliases ov) (normalize_kwargs rt args)) k = Some v"
      by (intro fold_apply_alias_stays [where F = "fst ` set (aliases ov)"]) simp_all
    then show ?thesis by (simp add: resolve_kwargs_def apply_aliases_def)
  qed
  have binding: "map_of b k \<noteq> None
           \<and> (k \<notin> pname ` set sig \<and> map_of (defaults ov) k = None \<longrightarrow> map_of b k = Some v')"
    if a: "unwrap_envelope kwargs = args \<and> pipeline rt sig ov kwargs = Inr (Invoke b)
               \<and> map_of (resolve_kwargs rt ov args) k = Some v'" for b v'
  proof -
    from a have bd: "bind_args rt sig ov (resolve_kwargs rt ov args) = Inr b"
      using pipeline_Invoke [of rt sig ov kwargs b] by simp
    from a have r: "map_of (resolve_kwargs rt ov args) k = Some v'" by simp
    from bind_args_passes(1) [OF bd r] bind_args_passes(2) [OF bd r] show ?thesis by blast
  qed
  have var: "k \<in> set [''phoneNumber'', ''phone_number'', ''groupId'', ''group'', ''contactId'',
                    ''templateId'', ''campaignId'']"
    using variant by (simp only: canonical_key_variant_iff)
  show ?thesis
  proof (intro conjI allI impI)
    show "map_of (normalize_kwargs rt args) k = Some v" by (rule n)
  next
    fix xs ys k' v'
    assume "args = xs @ (k', v') # ys \<and> canonical_key k' = canonical_key k
               \<and> (\<forall>(k'', v'') \<in> set ys. canonical_key k'' \<noteq> canonical_key k)"
    then show "map_of (normalize_kwargs rt args) (canonical_key k) = Some v'"
      by (rule last_wins)
  next
    show "\<exists>k' v'. (k', v') \<in> set args \<and> canonical_key k' = canonical_key k
             \<and> map_of (normalize_kwargs rt args) (canonical_key k) = Some v'"
      by (rule some)
  next
    fix j w assume "map_of args j = Some w"
    then show "map_of (normalize_kwargs rt args) j = Some w" by (rule normalize_present)
  next
    fix kw :: pydict and a c w
    assume r: "map_of kw a = Some w \<and> map_of kw c = None"
    then show "map_of (apply_alias (a, c) kw) a = None"
      by (intro apply_alias_relocates(1) [of kw a w c]) simp_all
  next
    fix kw :: pydict and a c w
    assume r: "map_of kw a = Some w \<and> map_of kw c = None"
    then show "map_of (apply_alias (a, c) kw) c = Some w"
      by (intro apply_alias_relocates(2) [of kw a w c]) simp_all
  next
    fix kw :: pydict and a c
    assume "map_of kw a = None \<or> map_of kw c \<noteq> None"
    then show "apply_alias (a, c) kw = kw" by (rule apply_alias_idle)
  next
    fix kw :: pydict and j w assume "map_of kw j = Some w \<and> j \<notin> fst ` set (aliases ov)"
    then show "map_of (apply_aliases ov kw) j = Some w"
      by (simp add: apply_aliases_def apply_aliases_keeps)
  next
    assume "\<forall>c. (k, c) \<in> set (aliases ov) \<longrightarrow>
               c \<notin> fst ` set (aliases ov) \<and> map_of (normalize_kwargs rt args) c \<noteq> None"
    then show "map_of (resolve_kwargs rt ov args) k = Some v" by (rule stays)
  next
    fix b v'
    assume a: "unwrap_envelope kwargs = args \<and> pipeline rt sig ov kwargs = Inr (Invoke b)
               \<and> map_of (resolve_kwargs rt ov args) k = Some v'"
    from binding [OF a] show "map_of b k \<noteq> None" by (rule conjunct1)
  next
    fix b v'
    assume a: "unwrap_envelope kwargs = args \<and> pipeline rt sig ov kwargs = Inr (Invoke b)
               \<and> map_of (resolve_kwargs rt ov args) k = Some v'"
      and u: "k \<notin> pname ` set sig \<and> map_of (defaults ov) k = None"
    from binding [OF a] u show "map_of b k = Some v'" by blast
  next
    show "k \<in> set [''phoneNumber'', ''phone_number'', ''groupId'', ''group'', ''contactId'',
                    ''templateId'', ''campaignId'']" by (rule var)
  qed (rule canonical_key_variants)+
qed

text \<open>The wrapper of \<^verbatim>\<open>add_contact\<close>, whose alias table holds \<^verbatim>\<open>phoneNumber \<rightarrow> phone\<close> and
  \<^verbatim>\<open>phone_number \<rightarrow> phone\<close>, around a function that takes any keyword, called with
  \<^verbatim>\<open>{"phoneNumber": "1", "phone_number": "2", "group_id": "g"}\<close>: \<^verbatim>\<open>phone\<close> gets the value of
  the later variant, \<^verbatim>\<open>phoneNumber\<close> is an alias key that is not relocated and reaches the
  Binding; and the alias pair \<^verbatim>\<open>recipients \<rightarrow> recipient\<close> on \<^verbatim>\<open>{"recipients": "x"}\<close>, which
  relocates.\<close>

theorem key_rewrites_copy_witness:
  "map_of (normalize_kwargs no_float_runtime
      [(''phoneNumber'', PStr ''1''), (''phone_number'', PStr ''2''), (''group_id'', PStr ''g'')])
      ''phoneNumber'' = Some (PStr ''1'')
   \<and> map_of (normalize_kwargs no_float_runtime
      [(''phoneNumber'', PStr ''1''), (''phone_number'', PStr ''2''), (''group_id'', PStr ''g'')])
      ''phone'' = Some (PStr ''2'')
   \<and> map_of (resolve_kwargs no_float_runtime add_contact_override
      [(''phoneNumber'', PStr ''1''), (''phone_number'', PStr ''2''), (''group_id'', PStr ''g'')])
      ''phoneNumber'' = Some (PStr ''1'')
   \<and> pipeline no_float_runtime [] add_contact_override
      [(''phoneNumber'', PStr ''1''), (''phone_number'', PStr ''2''), (''group_id'', PStr ''g'')]
     = Inr (Invoke [(''phoneNumber'', PStr ''1''), (''phone_number'', PStr ''2''),
                   (''group_id'', PStr ''g''), (''phone'', PStr ''2'')])
   \<and> map_of [(''phoneNumber'', PStr ''1''), (''phone_number'', PStr ''2''),
             (''group_id'', PStr ''g''), (''phone'', PStr ''2'')] ''phoneNumber''
     = Some (PStr ''1'')
   \<and> map_of (apply_alias (''recipients'', ''recipient'') [(''recipients'', PStr ''x'')])
       ''recipients'' = None
   \<and> map_of (apply_alias (''recipients'', ''recipient'') [(''recipients'', PStr ''x'')])
       ''recipient'' = Some (PStr ''x'')"
proof -
  let ?rt = no_float_runtime
  let ?ov = add_contact_override
  let ?args = "[(''phoneNumber'', PStr ''1''), (''phone_number'', PStr ''2''),
      (''group_id'', PStr ''g'')]"
  let ?b = "[(''phoneNumber'', PStr ''1''), (''phone_number'', PStr ''2''),
      (''group_id'', PStr ''g''), (''phone'', PStr ''2'')]"
  have p: "map_of ?args ''phoneNumber'' = Some (PStr ''1'')" by simp
  have c: "canonical_key ''phoneNumber'' = ''phone''" by (rule canonical_key_variants)
  have v: "canonical_key ''phoneNumber'' \<noteq> ''phoneNumber''" by (simp add: c)
  have a: "map_of ?args (canonical_key ''phoneNumber'') = None" by (simp add: c)
  note t1 = key_rewrites_copy [OF p v a, of ?rt ?ov ?args "[]"]
  note t2 = t1 [THEN conjunct2]
  note t3 = t2 [THEN conjunct2]
  note t4 = t3 [THEN conjunct2]
  note t5 = t4 [THEN conjunct2]
  note t6 = t5 [THEN conjunct2]
  note t7 = t6 [THEN conjunct2]
  note t8 = t7 [THEN conjunct2]
  note t9 = t8 [THEN conjunct2]
  have A: "map_of (normalize_kwargs ?rt ?args) ''phoneNumber'' = Some (PStr ''1'')"
    by (rule t1 [THEN conjunct1])
  have l: "?args = [(''phoneNumber'', PStr ''1'')] @ (''phone_number'', PStr ''2'')
        # [(''group_id'', PStr ''g'')]
      \<and> canonical_key ''phone_number'' = canonical_key ''phoneNumber''
      \<and> (\<forall>(k'', v'') \<in> set [(''group_id'', PStr ''g'')].
            canonical_key k'' \<noteq> canonical_key ''phoneNumber'')"
    by (simp add: canonical_key_def)
  have "map_of (normalize_kwargs ?rt ?args) (canonical_key ''phoneNumber'') = Some (PStr ''2'')"
    by (rule t2 [THEN conjunct1, rule_format, OF l])
  then have B: "map_of (normalize_kwargs ?rt ?args) ''phone'' = Some (PStr ''2'')"
    by (simp only: c)
  have al: "\<forall>c. (''phoneNumber'', c) \<in> set (aliases ?ov) \<longrightarrow>
               c \<notin> fst ` set (aliases ?ov) \<and> map_of (normalize_kwargs ?rt ?args) c \<noteq> None"
    using B by (simp add: add_contact_override_def)
  have C: "map_of (resolve_kwargs ?rt ?ov ?args) ''phoneNumber'' = Some (PStr ''1'')"
    by (rule t8 [THEN conjunct1, THEN mp, OF al])
  have u: "unwrap_envelope ?args = ?args"
    by (simp add: unwrap_envelope_def)
  have pl: "pipeline ?rt [] ?ov ?args = Inr (Invoke ?b)" by code_simp
  have d: "''phoneNumber'' \<notin> pname ` set ([] :: parameter list)
      \<and> map_of (defaults ?ov) ''phoneNumber'' = None"
    by (simp add: add_contact_override_def)
  have h: "unwrap_envelope ?args = ?args \<and> pipeline ?rt [] ?ov ?args = Inr (Invoke ?b)
      \<and> map_of (resolve_kwargs ?rt ?ov ?args) ''phoneNumber'' = Some (PStr ''1'')"
    using u pl C by (intro conjI)
  have "map_of ?b ''phoneNumber'' \<noteq> None
      \<and> (''phoneNumber'' \<notin> pname ` set ([] :: parameter list)
          \<and> map_of (defaults ?ov) ''phoneNumber'' = None
        \<longrightarrow> map_of ?b ''phoneNumber'' = Some (PStr ''1''))"
    by (rule t9 [THEN conjunct1, rule_format, OF h])
  with d have D: "map_of ?b ''phoneNumber'' = Some (PStr ''1'')" by blast
  have r: "map_of [(''recipients'', PStr ''x'')] ''recipients'' = Some (PStr ''x'')
      \<and> map_of [(''recipients'', PStr ''x'')] ''recipient'' = None" by simp
  have E: "map_of (apply_alias (''recipients'', ''recipient'') [(''recipients'', PStr ''x'')])
         ''recipients'' = None
      \<and> map_of (apply_alias (''recipients'', ''recipient'') [(''recipients'', PStr ''x'')])
         ''recipient'' = Some (PStr ''x'')"
    by (rule t5 [THEN conjunct1, rule_format, OF r])
  from A B C pl D E show ?thesis by blast
qed

section \<open>Running the Normalizer and the Alias Resolver twice\<close>

lemma has_key_iff: "has_key k d \<longleftrightarrow> map_of d k \<noteq> None"
  by (simp add: has_key_def)

lemma fold_identity: "(\<And>x a. x \<in> set xs \<Longrightarrow> f x a = a) \<Longrightarrow> fold f xs a = a"
  by (induction xs arbitrary: a) simp_all

lemma rewrite_keys_identity:
  assumes "list_all (\<lambda>(k, v). has_key (canonical_key k) kwargs) kwargs"
  shows "rewrite_keys kwargs = kwargs"
proof -
  have "collect_rewrites kwargs = []"
    unfolding collect_rewrites_def
    using assms by (intro fold_identity) (auto simp: list_all_iff)
  then show ?thesis by (simp add: rewrite_keys_def dict_update_def)
qed

lemma expand_name_fires:
  "expand_name rt kwargs =
     (if name_fires rt kwargs
      then (if length (name_parts rt (name_value kwargs)) = 1
            then AList.update ''first_name'' (PStr (hd (name_parts rt (name_value kwargs)))) kwargs
            else AList.update ''last_name'' (PStr (last (name_parts rt (name_value kwargs))))
                   (AList.update ''first_name''
                      (PStr (join '' '' (butlast (name_parts rt (name_value kwargs))))) kwargs))
      else kwargs)"
proof -
  have "length (name_parts rt (name_value kwargs)) \<noteq> 1
      \<Longrightarrow> \<not> 2 \<le> length (name_parts rt (name_value kwargs))
      \<Longrightarrow> name_parts rt (name_value kwargs) = []"
    by (cases "name_parts rt (name_value kwargs)") (auto simp: Suc_le_eq)
  then show ?thesis
    unfolding expand_name_def name_fires_def name_value_def [symmetric] Let_def
    by auto
qed

lemma fold_contacts_fires:
  "\<not> contacts_fires rt kwargs \<Longrightarrow> fold_contacts rt kwargs = kwargs"
  by (auto simp: fold_contacts_def contacts_fires_def split: pyval.splits option.splits)

lemma normalized_fixed: "normalized rt kwargs \<Longrightarrow> normalize_kwargs rt kwargs = kwargs"
  by (simp add: normalized_def normalize_kwargs_def rewrite_keys_identity expand_name_fires
        fold_contacts_fires)

lemma name_value_cong:
  "map_of a ''full_name'' = map_of b ''full_name'' \<Longrightarrow> map_of a ''name'' = map_of b ''name''
     \<Longrightarrow> name_value a = name_value b"
  by (simp add: name_value_def has_key_def get_or_none_def)

lemma name_fires_cong:
  assumes "map_of a ''full_name'' = map_of b ''full_name''" "map_of a ''name'' = map_of b ''name''"
    "map_of a ''first_name'' = map_of b ''first_name''"
    "map_of a ''last_name'' = map_of b ''last_name''"
  shows "name_fires rt a = name_fires rt b"
  using assms name_value_cong [of a b] by (simp add: name_fires_def has_key_def)

lemma contacts_fires_cong:
  assumes "map_of a ''contacts'' = map_of b ''contacts''" "map_of a ''phone'' = map_of b ''phone''"
  shows "contacts_fires rt a = contacts_fires rt b"
  using assms by (simp add: contacts_fires_def has_key_def get_or_none_def)

lemma expand_name_settles: "\<not> name_fires rt (expand_name rt kwargs)"
proof (cases "name_fires rt kwargs")
  case True
  then have "has_key ''first_name'' (expand_name rt kwargs)"
    by (simp add: expand_name_fires has_key_def update_conv')
  then show ?thesis by (simp add: name_fires_def)
next
  case False
  then show ?thesis by (simp add: expand_name_fires)
qed

lemma fold_contacts_settles: "\<not> contacts_fires rt (fold_contacts rt kwargs)"
proof (cases "contacts_fires rt kwargs")
  case True
  then have "has_key ''phone'' (fold_contacts rt kwargs)"
    by (auto simp: fold_contacts_def contacts_fires_def has_key_def update_conv'
          split: pyval.splits option.splits)
  then show ?thesis by (simp add: contacts_fires_def)
next
  case False
  then show ?thesis by (simp add: fold_contacts_fires)
qed
lemma canonical_key_target:
  "canonical_key k \<noteq> k \<Longrightarrow>
     canonical_key k \<in> {''phone'', ''group_id'', ''contact_id'', ''template_id'', ''campaign_id''}"
  using canonical_key_cases [of k] by blast

lemma canonical_key_written:
  "k \<in> {''phone'', ''group_id'', ''contact_id'', ''template_id'', ''campaign_id'',
         ''first_name'', ''last_name''} \<Longrightarrow> canonical_key k = k"
  by (auto simp: canonical_key_def)

lemma normalize_unwritten:
  assumes "k \<notin> {''phone'', ''group_id'', ''contact_id'', ''template_id'', ''campaign_id'',
         ''first_name'', ''last_name''}"
  shows "map_of (normalize_kwargs rt kwargs) k = map_of kwargs k"
proof -
  from assms have 1: "k \<noteq> ''phone''" and 2: "k \<noteq> ''first_name''" "k \<noteq> ''last_name''"
    and 3: "k \<notin> {''phone'', ''group_id'', ''contact_id'', ''template_id'', ''campaign_id''}"
    by simp_all
  show ?thesis
    unfolding normalize_kwargs_def
    by (simp only: map_of_fold_contacts_other [OF 1] map_of_expand_name_other [OF 2]
          map_of_rewrite_keys_other [OF 3])
qed

lemma normalize_canonical_present:
  assumes "map_of (normalize_kwargs rt kwargs) k \<noteq> None"
  shows "map_of (normalize_kwargs rt kwargs) (canonical_key k) \<noteq> None"
proof (cases "k \<in> {''phone'', ''group_id'', ''contact_id'', ''template_id'', ''campaign_id'',
         ''first_name'', ''last_name''}")
  case True
  then have "canonical_key k = k" by (rule canonical_key_written)
  with assms show ?thesis by simp
next
  case False
  then have "map_of (normalize_kwargs rt kwargs) k = map_of kwargs k"
    by (rule normalize_unwritten)
  with assms obtain v where v: "map_of kwargs k = Some v" by auto
  show ?thesis
  proof (cases "map_of kwargs (canonical_key k)")
    case (Some w)
    then show ?thesis by (simp add: normalize_present)
  next
    case None
    from rewrite_keys_canonical_some [OF v None] obtain v'
      where "map_of (rewrite_keys kwargs) (canonical_key k) = Some v'" by blast
    then show ?thesis
      by (simp add: normalize_kwargs_def fold_contacts_present expand_name_present)
  qed
qed

lemma map_of_member: "(k, v) \<in> set d \<Longrightarrow> map_of d k \<noteq> None"
  by (auto simp: map_of_eq_None_iff intro: rev_image_eqI)

lemma normalize_normalized: "normalized rt (normalize_kwargs rt kwargs)"
proof -
  let ?n = "normalize_kwargs rt kwargs"
  have 1: "list_all (\<lambda>(k, v). has_key (canonical_key k) ?n) ?n"
    unfolding list_all_iff
  proof (clarify)
    fix k v assume "(k, v) \<in> set ?n"
    then have "map_of ?n k \<noteq> None" by (rule map_of_member)
    then have "map_of ?n (canonical_key k) \<noteq> None" by (rule normalize_canonical_present)
    then show "has_key (canonical_key k) ?n" by (simp add: has_key_def)
  qed
  have "name_fires rt ?n = name_fires rt (expand_name rt (rewrite_keys kwargs))"
    unfolding normalize_kwargs_def
    by (intro name_fires_cong) (simp_all add: map_of_fold_contacts_other)
  then have 2: "\<not> name_fires rt ?n" by (simp add: expand_name_settles)
  have 3: "\<not> contacts_fires rt ?n"
    by (simp add: normalize_kwargs_def fold_contacts_settles)
  from 1 2 3 show ?thesis by (simp add: normalized_def)
qed

lemma apply_alias_cases:
  "apply_alias (a, c) kwargs = kwargs
   \<or> (\<exists>v. map_of kwargs a = Some v \<and> map_of kwargs c = None
         \<and> map_of (apply_alias (a, c) kwargs) = ((map_of kwargs)(a := None))(c \<mapsto> v))"
  by (cases "map_of kwargs a"; cases "map_of kwargs c")
     (simp_all add: apply_alias_def has_key_def update_conv' delete_conv')

lemma canonical_key_unread: "k \<notin> set normalizer_reads \<Longrightarrow> canonical_key k = k"
  by (auto simp: normalizer_reads_def canonical_key_def)

lemma apply_alias_normalized:
  assumes n: "normalized rt kwargs"
    and a: "a \<notin> set normalizer_guards"
    and c: "c \<notin> set normalizer_reads"
  shows "normalized rt (apply_alias (a, c) kwargs)"
proof -
  let ?kw = "apply_alias (a, c) kwargs"
  from apply_alias_cases [of a c kwargs] show ?thesis
  proof
    assume "?kw = kwargs" with n show ?thesis by simp
  next
    assume "\<exists>v. map_of kwargs a = Some v \<and> map_of kwargs c = None
         \<and> map_of ?kw = ((map_of kwargs)(a := None))(c \<mapsto> v)"
    then obtain v where av: "map_of kwargs a = Some v" and cn: "map_of kwargs c = None"
      and m: "map_of ?kw = ((map_of kwargs)(a := None))(c \<mapsto> v)" by blast
    from a have a1: "a \<noteq> ''first_name''" "a \<noteq> ''last_name''" "a \<noteq> ''full_name''"
      "a \<noteq> ''phone''"
      and a2: "a \<notin> {''phone'', ''group_id'', ''contact_id'', ''template_id'', ''campaign_id''}"
      by (auto simp: normalizer_guards_def)
    from c have c1: "c \<noteq> ''full_name''" "c \<noteq> ''name''" "c \<noteq> ''contacts''"
      by (auto simp: normalizer_reads_def)
    from n have s1: "\<And>k. map_of kwargs k \<noteq> None \<Longrightarrow> map_of kwargs (canonical_key k) \<noteq> None"
      and s2: "\<not> name_fires rt kwargs" and s3: "\<not> contacts_fires rt kwargs"
      by (auto simp: normalized_def list_all_iff has_key_def map_of_eq_None_iff)
    have 1: "map_of ?kw (canonical_key k) \<noteq> None" if "map_of ?kw k \<noteq> None" for k
    proof (cases "k = c")
      case True
      with c show ?thesis by (simp add: canonical_key_unread m)
    next
      case False
      with that have k: "k \<noteq> a" "map_of kwargs k \<noteq> None"
        by (auto simp: m split: if_splits)
      have "canonical_key k \<noteq> a"
      proof (cases "canonical_key k = k")
        case True with k show ?thesis by simp
      next
        case False
        from canonical_key_target [OF this] a2 show ?thesis by auto
      qed
      with s1 [OF k(2)] show ?thesis by (simp add: m)
    qed
    have 2: "\<not> name_fires rt ?kw"
    proof
      assume f: "name_fires rt ?kw"
      then have nf: "map_of ?kw ''first_name'' = None" "map_of ?kw ''last_name'' = None"
        by (simp_all add: name_fires_def has_key_def)
      then have cf: "c \<noteq> ''first_name''" "c \<noteq> ''last_name''" by (auto simp: m)
      have full: "map_of ?kw ''full_name'' = map_of kwargs ''full_name''"
        using a1 c1 by (simp add: m)
      have gone: "map_of ?kw a = None" using cn av by (auto simp: m)
      show False
      proof (cases "a = ''name''")
        case False
        have "name_fires rt ?kw = name_fires rt kwargs"
          using a1 c1 cf False by (intro name_fires_cong) (simp_all add: m)
        with f s2 show False by simp
      next
        case True
        show False
        proof (cases "map_of kwargs ''full_name''")
          case None
          with full have "map_of ?kw ''full_name'' = None" by simp
          moreover from gone True have "map_of ?kw ''name'' = None" by simp
          ultimately have "name_value ?kw = PNone"
            by (simp add: name_value_def has_key_def)
          with f show False by (simp add: name_fires_def py_truthy_def)
        next
          case (Some w)
          then have "name_value ?kw = name_value kwargs"
            using full by (simp add: name_value_def has_key_def get_or_none_def)
          moreover have "map_of kwargs ''first_name'' = None" "map_of kwargs ''last_name'' = None"
            using nf a1 cf by (auto simp: m split: if_splits)
          ultimately have "name_fires rt kwargs"
            using f by (simp add: name_fires_def has_key_def)
          with s2 show False by simp
        qed
      qed
    qed
    have 3: "\<not> contacts_fires rt ?kw"
    proof
      assume f: "contacts_fires rt ?kw"
      then have p: "map_of ?kw ''phone'' = None" and ct: "map_of ?kw ''contacts'' \<noteq> None"
        by (simp_all add: contacts_fires_def has_key_def)
      from p have "c \<noteq> ''phone''" by (auto simp: m)
      with p a1 have p': "map_of kwargs ''phone'' = map_of ?kw ''phone''" by (simp add: m)
      from ct c1 have "a \<noteq> ''contacts''" by (auto simp: m)
      with c1 have "map_of kwargs ''contacts'' = map_of ?kw ''contacts''" by (simp add: m)
      with p' have "contacts_fires rt kwargs = contacts_fires rt ?kw"
        by (intro contacts_fires_cong) simp_all
      with f s3 show False by simp
    qed
    from 1 2 3 show ?thesis
      by (auto simp: normalized_def list_all_iff has_key_def dest!: map_of_member)
  qed
qed

lemma apply_aliases_normalized:
  "normalized rt kwargs \<Longrightarrow>
     list_all (\<lambda>(a, c). a \<notin> set normalizer_guards \<and> c \<notin> set normalizer_reads) al \<Longrightarrow>
     normalized rt (fold apply_alias al kwargs)"
proof (induction al arbitrary: kwargs)
  case Nil then show ?case by simp
next
  case (Cons x al)
  obtain a c where x: "x = (a, c)" by (cases x)
  from Cons.prems x have "normalized rt (apply_alias (a, c) kwargs)"
    by (intro apply_alias_normalized) simp_all
  with Cons show ?case by (simp add: x)
qed

lemma apply_alias_settles_self: "alias_settled (apply_alias (a, c) kwargs) (a, c)"
  by (cases "map_of kwargs a"; cases "map_of kwargs c")
     (simp_all add: alias_settled_def has_key_def apply_alias_def update_conv')

lemma apply_alias_keeps_settled:
  assumes "alias_settled kwargs (a, c)" "a' \<noteq> c" "c' \<noteq> a"
  shows "alias_settled (apply_alias (a', c') kwargs) (a, c)"
proof -
  from assms have ne: "c \<noteq> a'" "a \<noteq> c'" by auto
  from apply_alias_cases [of a' c' kwargs] show ?thesis
  proof
    assume "apply_alias (a', c') kwargs = kwargs"
    with assms(1) show ?thesis by simp
  next
    assume "\<exists>v. map_of kwargs a' = Some v \<and> map_of kwargs c' = None
         \<and> map_of (apply_alias (a', c') kwargs) = ((map_of kwargs)(a' := None))(c' \<mapsto> v)"
    then obtain v where m: "map_of (apply_alias (a', c') kwargs)
        = ((map_of kwargs)(a' := None))(c' \<mapsto> v)" by blast
    have "map_of (apply_alias (a', c') kwargs) a = None \<or> map_of (apply_alias (a', c') kwargs) c \<noteq> None"
      using assms(1) ne by (auto simp: m alias_settled_def has_key_def)
    then show ?thesis by (simp add: alias_settled_def has_key_def)
  qed
qed

lemma fold_apply_alias_settled:
  assumes "\<forall>ac \<in> D. alias_settled kwargs ac"
    and "\<forall>ac \<in> D \<union> set al. \<forall>ac' \<in> set al. fst ac' \<noteq> snd ac \<and> snd ac' \<noteq> fst ac"
  shows "\<forall>ac \<in> D \<union> set al. alias_settled (fold apply_alias al kwargs) ac"
  using assms
proof (induction al arbitrary: kwargs D)
  case Nil then show ?case by simp
next
  case (Cons x al)
  obtain a' c' where x: "x = (a', c')" by (cases x)
  have 1: "\<forall>ac \<in> insert x D. alias_settled (apply_alias x kwargs) ac"
  proof
    fix ac assume ac: "ac \<in> insert x D"
    obtain a c where p: "ac = (a, c)" by (cases ac)
    show "alias_settled (apply_alias x kwargs) ac"
    proof (cases "ac = x")
      case True then show ?thesis by (simp add: x apply_alias_settles_self)
    next
      case False
      with ac have d: "ac \<in> D" by simp
      with Cons.prems(1) have "alias_settled kwargs (a, c)" by (auto simp: p)
      moreover have "x \<in> set (x # al)" by simp
      with Cons.prems(2) d have "fst x \<noteq> snd ac \<and> snd x \<noteq> fst ac" by blast
      then have "a' \<noteq> c" "c' \<noteq> a" by (simp_all add: p x)
      ultimately show ?thesis unfolding p x by (rule apply_alias_keeps_settled)
    qed
  qed
  have 2: "\<forall>ac \<in> insert x D \<union> set al. \<forall>ac' \<in> set al. fst ac' \<noteq> snd ac \<and> snd ac' \<noteq> fst ac"
  proof (intro ballI)
    fix ac ac' assume "ac \<in> insert x D \<union> set al" "ac' \<in> set al"
    then have "ac \<in> D \<union> set (x # al)" "ac' \<in> set (x # al)" by auto
    with Cons.prems(2) show "fst ac' \<noteq> snd ac \<and> snd ac' \<noteq> fst ac" by blast
  qed
  from Cons.IH [OF 1 2] show ?case by simp
qed

lemma fold_apply_alias_fixed:
  "\<forall>ac \<in> set al. alias_settled kwargs ac \<Longrightarrow> fold apply_alias al kwargs = kwargs"
proof (induction al)
  case Nil then show ?case by simp
next
  case (Cons x al)
  obtain a c where x: "x = (a, c)" by (cases x)
  from Cons.prems have "alias_settled kwargs (a, c)" by (simp add: x)
  then have "apply_alias x kwargs = kwargs"
    by (auto simp: x alias_settled_def apply_alias_def has_key_def split: option.splits)
  with Cons show ?case by simp
qed

lemma apply_aliases_twice:
  assumes "\<forall>ac \<in> set al. \<forall>ac' \<in> set al. fst ac' \<noteq> snd ac"
  shows "fold apply_alias al (fold apply_alias al kwargs) = fold apply_alias al kwargs"
proof -
  have "\<forall>ac \<in> {} \<union> set al. \<forall>ac' \<in> set al. fst ac' \<noteq> snd ac \<and> snd ac' \<noteq> fst ac"
  proof (intro ballI conjI)
    fix ac ac' assume m: "ac \<in> {} \<union> set al" "ac' \<in> set al"
    then have "ac \<in> set al" by simp
    with assms m(2) show "fst ac' \<noteq> snd ac" by blast
    from assms m(2) \<open>ac \<in> set al\<close> have "fst ac \<noteq> snd ac'" by blast
    then show "snd ac' \<noteq> fst ac" by simp
  qed
  then have "\<forall>ac \<in> {} \<union> set al. alias_settled (fold apply_alias al kwargs) ac"
    by (intro fold_apply_alias_settled) simp
  then show ?thesis by (intro fold_apply_alias_fixed) simp
qed

lemma alias_table_separate_aliases:
  assumes "alias_table_separate al"
  shows "\<forall>ac \<in> set al. \<forall>ac' \<in> set al. fst ac' \<noteq> snd ac"
proof (intro ballI)
  fix ac ac' assume m: "ac \<in> set al" "ac' \<in> set al"
  obtain a' c' where p: "ac' = (a', c')" by (cases ac')
  from assms m(2) have "a' \<notin> set (map snd al)"
    unfolding alias_table_separate_def list_all_iff p by blast
  moreover from m(1) have "snd ac \<in> set (map snd al)" by simp
  ultimately show "fst ac' \<noteq> snd ac" unfolding p by auto
qed

lemma alias_table_separate_keys:
  assumes "alias_table_separate al"
  shows "list_all (\<lambda>(a, c). a \<notin> set normalizer_guards \<and> c \<notin> set normalizer_reads) al"
  unfolding list_all_iff
proof (intro ballI)
  fix ac assume m: "ac \<in> set al"
  obtain a c where p: "ac = (a, c)" by (cases ac)
  from assms m have "a \<notin> set normalizer_guards \<and> c \<notin> set normalizer_reads"
    unfolding alias_table_separate_def list_all_iff p by blast
  then show "case ac of (a, c) \<Rightarrow> a \<notin> set normalizer_guards \<and> c \<notin> set normalizer_reads"
    by (simp add: p)
qed

lemma resolve_kwargs_twice:
  assumes "alias_table_separate (aliases ov)"
  shows "resolve_kwargs rt ov (resolve_kwargs rt ov kwargs) = resolve_kwargs rt ov kwargs"
proof -
  let ?al = "aliases ov"
  from assms have s: "\<forall>ac \<in> set ?al. \<forall>ac' \<in> set ?al. fst ac' \<noteq> snd ac"
    by (rule alias_table_separate_aliases)
  from assms
  have g: "list_all (\<lambda>(a, c). a \<notin> set normalizer_guards \<and> c \<notin> set normalizer_reads) ?al"
    by (rule alias_table_separate_keys)
  have "normalized rt (fold apply_alias ?al (normalize_kwargs rt kwargs))"
    using normalize_normalized g by (rule apply_aliases_normalized)
  then have "normalize_kwargs rt (fold apply_alias ?al (normalize_kwargs rt kwargs))
      = fold apply_alias ?al (normalize_kwargs rt kwargs)"
    by (rule normalized_fixed)
  then show ?thesis
    by (simp add: resolve_kwargs_def apply_aliases_def apply_aliases_twice [OF s])
qed

lemma default_overrides_list:
  "default_overrides =
     [(''send_quick_bulk_sms'', send_quick_bulk_sms_override),
      (''send_bulk_group_sms'', send_bulk_group_sms_override),
      (''update_scheduled_sms'', update_scheduled_sms_override),
      (''add_contact'', add_contact_override),
      (''update_contact'', update_contact_override),
      (''delete_contact'', empty_override),
      (''get_contact_details'', empty_override),
      (''add_group'', empty_override),
      (''update_group'', empty_override),
      (''delete_group'', empty_override),
      (''get_group_details'', empty_override),
      (''get_message_template'', empty_override),
      (''update_message_template'', empty_override),
      (''delete_message_template'', empty_override),
      (''sms_delivery_report'', empty_override),
      (''specific_sms_delivery_report'', empty_override)]"
  by code_simp

lemma registered_aliases:
  "aliases (registered_override name) \<in>
     {[], [(''recipients'', ''recipient'')],
      [(''groups'', ''group_id''), (''group_ids'', ''group_id'')],
      [(''group'', ''group_id''), (''phone_number'', ''phone''), (''phoneNumber'', ''phone'')],
      [(''group'', ''group_id''), (''phone_number'', ''phone''), (''phoneNumber'', ''phone''),
       (''contactId'', ''contact_id'')]}"
proof -
  consider "name = ''send_quick_bulk_sms''" | "name = ''send_bulk_group_sms''"
    | "name = ''add_contact''" | "name = ''update_contact''"
    | "name \<notin> {''send_quick_bulk_sms'', ''send_bulk_group_sms'', ''add_contact'',
         ''update_contact''}"
    by blast
  then show ?thesis
  proof cases
    case 1
    then show ?thesis
      by (simp add: registered_override_def default_overrides_list default_aliases_def
            dict_update_def send_quick_bulk_sms_override_def)
  next
    case 2
    then show ?thesis
      by (simp add: registered_override_def default_overrides_list default_aliases_def
            dict_update_def send_bulk_group_sms_override_def)
  next
    case 3
    then show ?thesis
      by (simp add: registered_override_def default_overrides_list default_aliases_def
            dict_update_def add_contact_override_def)
  next
    case 4
    then show ?thesis
      by (simp add: registered_override_def default_overrides_list default_aliases_def
            dict_update_def update_contact_override_def)
  next
    case 5
    then have n: "name \<noteq> ''send_quick_bulk_sms''" "name \<noteq> ''send_bulk_group_sms''"
      "name \<noteq> ''add_contact''" "name \<noteq> ''update_contact''" by simp_all
    have "aliases (case map_of default_overrides name of Some ov \<Rightarrow> ov | None \<Rightarrow> empty_override)
        = []"
      using n
      by (simp add: default_overrides_list empty_override_def update_scheduled_sms_override_def)
    moreover have "map_of default_aliases name = None"
      using n by (simp add: default_aliases_def)
    ultimately have "aliases (registered_override name) = []"
      by (simp add: registered_override_def Let_def dict_update_def)
    then show ?thesis by simp
  qed
qed

lemma registered_aliases_separate: "alias_table_separate (aliases (registered_override name))"
proof -
  have "alias_table_separate []"
    "alias_table_separate [(''recipients'', ''recipient'')]"
    "alias_table_separate [(''groups'', ''group_id''), (''group_ids'', ''group_id'')]"
    "alias_table_separate [(''group'', ''group_id''), (''phone_number'', ''phone''),
       (''phoneNumber'', ''phone'')]"
    "alias_table_separate [(''group'', ''group_id''), (''phone_number'', ''phone''),
       (''phoneNumber'', ''phone''), (''contactId'', ''contact_id'')]"
    by (simp_all add: alias_table_separate_def normalizer_guards_def normalizer_reads_def)
  with registered_aliases [of name] show ?thesis by auto
qed

text \<open>
  Claim C9, as stated, fails: it holds for the Normalizer alone, but not for every alias table
  that \<^verbatim>\<open>make_flex_wrapper\<close> accepts. Take the alias \<^verbatim>\<open>phone \<rightarrow> recipient\<close> and the input
  \<^verbatim>\<open>{"phone_number": "024", "phone": "024"}\<close>, which the Normalizer leaves as it is. The
  first run moves \<^verbatim>\<open>phone\<close> to \<^verbatim>\<open>recipient\<close>; the second run finds \<^verbatim>\<open>phone\<close> absent, and
  the Normalizer writes it again from \<^verbatim>\<open>phone_number\<close>.
\<close>

theorem normalize_resolve_idempotent_counterexample:
  "normalize_kwargs no_float_runtime [(''phone_number'', PStr ''024''), (''phone'', PStr ''024'')]
   = [(''phone_number'', PStr ''024''), (''phone'', PStr ''024'')]
   \<and> resolve_kwargs no_float_runtime
       (empty_override \<lparr> aliases := [(''phone'', ''recipient'')] \<rparr>)
       [(''phone_number'', PStr ''024''), (''phone'', PStr ''024'')]
     = [(''phone_number'', PStr ''024''), (''recipient'', PStr ''024'')]
   \<and> resolve_kwargs no_float_runtime
       (empty_override \<lparr> aliases := [(''phone'', ''recipient'')] \<rparr>)
       (resolve_kwargs no_float_runtime
          (empty_override \<lparr> aliases := [(''phone'', ''recipient'')] \<rparr>)
          [(''phone_number'', PStr ''024''), (''phone'', PStr ''024'')])
     = [(''phone_number'', PStr ''024''), (''recipient'', PStr ''024''),
        (''phone'', PStr ''024'')]
   \<and> resolve_kwargs no_float_runtime
       (empty_override \<lparr> aliases := [(''phone'', ''recipient'')] \<rparr>)
       (resolve_kwargs no_float_runtime
          (empty_override \<lparr> aliases := [(''phone'', ''recipient'')] \<rparr>)
          [(''phone_number'', PStr ''024''), (''phone'', PStr ''024'')])
     \<noteq> resolve_kwargs no_float_runtime
         (empty_override \<lparr> aliases := [(''phone'', ''recipient'')] \<rparr>)
         [(''phone_number'', PStr ''024''), (''phone'', PStr ''024'')]"
  by code_simp

text \<open>
  Claim C9, amended. For every input mapping, the Normalizer applied twice yields what it
  yields applied once. The composite of Normalizer and Alias Resolver applied twice yields
  what it yields applied once, for every input mapping, whenever the alias table keeps apart
  from the Normalizer: no canonical key of the table is an alias of the table, no alias is a
  key whose absence lets the Normalizer write (\<^const>\<open>normalizer_guards\<close>), and no canonical
  key is a key the Normalizer reads (\<^const>\<open>normalizer_reads\<close>). Every alias table that
  \<^verbatim>\<open>register_flex_functions\<close> builds from the default tables is of that kind, so for every
  function registered from the default tables, and every input mapping, the composite applied
  twice yields what it yields applied once.
\<close>

theorem normalize_resolve_idempotent:
  "normalize_kwargs rt (normalize_kwargs rt kwargs) = normalize_kwargs rt kwargs
   \<and> (alias_table_separate (aliases ov) \<longrightarrow>
        resolve_kwargs rt ov (resolve_kwargs rt ov kwargs) = resolve_kwargs rt ov kwargs)
   \<and> alias_table_separate (aliases (registered_override name))
   \<and> resolve_kwargs rt (registered_override name)
        (resolve_kwargs rt (registered_override name) kwargs)
      = resolve_kwargs rt (registered_override name) kwargs"
proof (intro conjI impI)
  show "normalize_kwargs rt (normalize_kwargs rt kwargs) = normalize_kwargs rt kwargs"
    using normalize_normalized by (rule normalized_fixed)
next
  assume "alias_table_separate (aliases ov)"
  then show "resolve_kwargs rt ov (resolve_kwargs rt ov kwargs) = resolve_kwargs rt ov kwargs"
    by (rule resolve_kwargs_twice)
next
  show "alias_table_separate (aliases (registered_override name))"
    by (rule registered_aliases_separate)
next
  show "resolve_kwargs rt (registered_override name)
          (resolve_kwargs rt (registered_override name) kwargs)
        = resolve_kwargs rt (registered_override name) kwargs"
    using registered_aliases_separate by (rule resolve_kwargs_twice)
qed

text \<open>The wrapper that the registry builds for \<^verbatim>\<open>send_quick_bulk_sms\<close>, whose alias table is
  \<^verbatim>\<open>recipients \<rightarrow> recipient\<close>, on \<^verbatim>\<open>{"recipients": "024", "phoneNumber": "1", "name":
  "John Smith"}\<close>: the Normalizer writes \<^verbatim>\<open>phone\<close>, \<^verbatim>\<open>first_name\<close> and \<^verbatim>\<open>last_name\<close>, the Alias
  Resolver moves \<^verbatim>\<open>recipients\<close> to \<^verbatim>\<open>recipient\<close>, and a second run changes nothing.\<close>

theorem normalize_resolve_idempotent_witness:
  "alias_table_separate (aliases (registered_override ''send_quick_bulk_sms''))
   \<and> resolve_kwargs no_float_runtime (registered_override ''send_quick_bulk_sms'')
       [(''recipients'', PStr ''024''), (''phoneNumber'', PStr ''1''),
        (''name'', PStr ''John Smith'')]
     = [(''phoneNumber'', PStr ''1''), (''name'', PStr ''John Smith''), (''phone'', PStr ''1''),
        (''first_name'', PStr ''John''), (''last_name'', PStr ''Smith''),
        (''recipient'', PStr ''024'')]
   \<and> resolve_kwargs no_float_runtime (registered_override ''send_quick_bulk_sms'')
       (resolve_kwargs no_float_runtime (registered_override ''send_quick_bulk_sms'')
          [(''recipients'', PStr ''024''), (''phoneNumber'', PStr ''1''),
           (''name'', PStr ''John Smith'')])
     = resolve_kwargs no_float_runtime (registered_override ''send_quick_bulk_sms'')
         [(''recipients'', PStr ''024''), (''phoneNumber'', PStr ''1''),
          (''name'', PStr ''John Smith'')]"
proof -
  let ?ov = "registered_override ''send_quick_bulk_sms''"
  let ?args = "[(''recipients'', PStr ''024''), (''phoneNumber'', PStr ''1''),
      (''name'', PStr ''John Smith'')]"
  note t = normalize_resolve_idempotent [of no_float_runtime ?args ?ov "''send_quick_bulk_sms''"]
  have s: "alias_table_separate (aliases ?ov)"
    by (rule t [THEN conjunct2, THEN conjunct2, THEN conjunct1])
  have i: "resolve_kwargs no_float_runtime ?ov (resolve_kwargs no_float_runtime ?ov ?args)
      = resolve_kwargs no_float_runtime ?ov ?args"
    by (rule t [THEN conjunct2, THEN conjunct1, THEN mp, OF s])
  have e: "resolve_kwargs no_float_runtime ?ov ?args
      = [(''phoneNumber'', PStr ''1''), (''name'', PStr ''John Smith''), (''phone'', PStr ''1''),
         (''first_name'', PStr ''John''), (''last_name'', PStr ''Smith''),
         (''recipient'', PStr ''024'')]"
    by code_simp
  from s e i show ?thesis by (intro conjI)
qed

end
